theory Spec2Isabelle
  imports Main "HOL-Library.Word" "HOL-Library.Multiset"
begin

unbundle bit_operations_syntax

section \<open>Machine integers and bytes\<close>

text \<open>
  The map of \<^verbatim>\<open>fastmap.h\<close> stores untyped byte blobs. A byte is an 8-bit word, a digest a
  64-bit word. Sizes and indices (\<^verbatim>\<open>size_t\<close>, \<^verbatim>\<open>uint32_t\<close>) are natural numbers with the
  wrap-around written out: \<open>sz\<close> is the reduction of a 64-bit \<^verbatim>\<open>size_t\<close> result, \<open>sz_sub\<close> its
  subtraction, \<open>u32\<close> the conversion to \<^verbatim>\<open>uint32_t\<close>.
\<close>

type_synonym byte = "8 word"

definition sz :: "nat \<Rightarrow> nat" where
  "sz n = n mod 2 ^ 64"

definition sz_sub :: "nat \<Rightarrow> nat \<Rightarrow> nat" where
  "sz_sub a b = (if b \<le> a then a - b else a + 2 ^ 64 - b)"

definition u32 :: "nat \<Rightarrow> nat" where
  "u32 n = n mod 2 ^ 32"

section \<open>Hashing\<close>

text \<open>
  \<^verbatim>\<open>fm_wymix\<close> has two bodies, chosen by the preprocessor on \<^verbatim>\<open>__SIZEOF_INT128__\<close>; the flag
  \<open>int128\<close> is that choice. With it the product is taken in 128 bits and its two halves
  are folded; without it the low product is folded with the product of the high halves.
\<close>

definition fm_wymix :: "bool \<Rightarrow> 64 word \<Rightarrow> 64 word \<Rightarrow> 64 word" where
  "fm_wymix int128 A B =
     (if int128
      then (let res = (ucast A :: 128 word) * ucast B
            in (ucast res :: 64 word) XOR ucast (drop_bit 64 res))
      else (let lo = A * B; hi = drop_bit 32 A * drop_bit 32 B in lo XOR hi))"

text \<open>
  \<open>le_word\<close> assembles up to eight bytes into a word, lowest byte first: the \<^verbatim>\<open>memcpy\<close> of
  eight key bytes into a \<^verbatim>\<open>uint64_t\<close> on a little-endian machine, and the fall-through
  \<^verbatim>\<open>switch\<close> that ORs the 1 to 7 tail bytes, byte \<open>i\<close> shifted by \<open>8 * i\<close>.
\<close>

fun le_word :: "byte list \<Rightarrow> 64 word" where
  "le_word [] = 0"
| "le_word (b # bs) = ucast b OR push_bit 8 (le_word bs)"

function fm_hash_loop :: "bool \<Rightarrow> 64 word \<Rightarrow> byte list \<Rightarrow> 64 word" where
  "fm_hash_loop int128 seed p =
     (if 8 \<le> length p
      then fm_hash_loop int128
             (fm_wymix int128 (seed XOR le_word (take 8 p)) 0xbf58476d1ce4e5b9) (drop 8 p)
      else if 0 < length p
      then fm_wymix int128 (seed XOR le_word p) 0x94d049bb133111eb
      else seed)"
  by pat_completeness auto
termination
  by (relation "measure (\<lambda>(c, s, p). length p)") auto

declare fm_hash_loop.simps [simp del]

text \<open>\<^verbatim>\<open>fm_hash(key, len)\<close> reads the first \<open>len\<close> bytes at \<open>key\<close> and nothing else.\<close>

definition fm_hash :: "bool \<Rightarrow> byte list \<Rightarrow> nat \<Rightarrow> 64 word" where
  "fm_hash int128 key len =
     fm_wymix int128 (fm_hash_loop int128 0x9E3779B97F4A7C15 (take len key)) (word_of_nat len)"

subsection \<open>Floating-point keys\<close>

text \<open>
  A \<^verbatim>\<open>float\<close> is its IEEE 754 binary32 bit pattern, a \<^verbatim>\<open>double\<close> its binary64 pattern. The
  comparison \<^verbatim>\<open>val == 0.0f\<close> holds exactly of the two zeros, whose patterns have every bit
  but the sign clear. \<open>word_bytes\<close> is the object representation the helper hashes
  (\<^verbatim>\<open>&val\<close>, \<^verbatim>\<open>sizeof(val)\<close> bytes, lowest byte first).
\<close>

definition word_bytes :: "nat \<Rightarrow> 'a::len word \<Rightarrow> byte list" where
  "word_bytes n w = map (\<lambda>i. ucast (drop_bit (8 * i) w)) [0..<n]"

definition float_is_zero :: "32 word \<Rightarrow> bool" where
  "float_is_zero val = (val AND 0x7FFFFFFF = 0)"

definition double_is_zero :: "64 word \<Rightarrow> bool" where
  "double_is_zero val = (val AND 0x7FFFFFFFFFFFFFFF = 0)"

definition fm_hash_float :: "bool \<Rightarrow> 32 word \<Rightarrow> 64 word" where
  "fm_hash_float int128 val =
     (let val = (if float_is_zero val then 0 else val)
      in fm_hash int128 (word_bytes 4 val) 4)"

definition fm_hash_double :: "bool \<Rightarrow> 64 word \<Rightarrow> 64 word" where
  "fm_hash_double int128 val =
     (let val = (if double_is_zero val then 0 else val)
      in fm_hash int128 (word_bytes 8 val) 8)"

text \<open>
  Ordinary floating equality (\<^verbatim>\<open>==\<close>): a NaN (exponent all ones, fraction not zero) equals
  nothing; the two zeros are equal; any other two values are equal when their patterns are.
\<close>

definition float_is_nan :: "32 word \<Rightarrow> bool" where
  "float_is_nan val = (0x7F800000 < (val AND 0x7FFFFFFF))"

definition double_is_nan :: "64 word \<Rightarrow> bool" where
  "double_is_nan val = (0x7FF0000000000000 < (val AND 0x7FFFFFFFFFFFFFFF))"

definition float_eq :: "32 word \<Rightarrow> 32 word \<Rightarrow> bool" where
  "float_eq x y =
     (\<not> float_is_nan x \<and> \<not> float_is_nan y \<and> (x = y \<or> (float_is_zero x \<and> float_is_zero y)))"

definition double_eq :: "64 word \<Rightarrow> 64 word \<Rightarrow> bool" where
  "double_eq x y =
     (\<not> double_is_nan x \<and> \<not> double_is_nan y \<and> (x = y \<or> (double_is_zero x \<and> double_is_zero y)))"

section \<open>The load-factor comparison in single precision\<close>

text \<open>
  \<^verbatim>\<open>fm_put\<close> compares \<^verbatim>\<open>keys.length >= bucket_count * max_load_factor\<close> in \<^verbatim>\<open>float\<close>: both sizes
  are converted to binary32, the product is rounded to binary32, all to nearest with ties
  to even. A non-negative binary32 value is \<open>mant * 2 ^ expo\<close> with \<open>mant < 2 ^ 24\<close>.
\<close>

datatype binary32 = Binary32 (mant: nat) (expo: int)

fun bit_length :: "nat \<Rightarrow> nat" where
  "bit_length n = (if n = 0 then 0 else Suc (bit_length (n div 2)))"

declare bit_length.simps [simp del]

definition round_binary32 :: "nat \<Rightarrow> int \<Rightarrow> binary32" where
  "round_binary32 m e =
     (if m < 2 ^ 24 then Binary32 m e
      else (let k = bit_length m - 24;
                q = m div 2 ^ k;
                r = m mod 2 ^ k;
                h = 2 ^ (k - 1);
                q' = (if h < r \<or> (r = h \<and> odd q) then q + 1 else q)
            in if q' = 2 ^ 24 then Binary32 (2 ^ 23) (e + int k + 1)
               else Binary32 q' (e + int k)))"

definition binary32_of_size :: "nat \<Rightarrow> binary32" where
  "binary32_of_size n = round_binary32 n 0"

definition binary32_mult :: "binary32 \<Rightarrow> binary32 \<Rightarrow> binary32" where
  "binary32_mult a b = round_binary32 (mant a * mant b) (expo a + expo b)"

definition binary32_le :: "binary32 \<Rightarrow> binary32 \<Rightarrow> bool" where
  "binary32_le a b =
     (if expo a \<le> expo b then mant a \<le> mant b * 2 ^ nat (expo b - expo a)
      else mant a * 2 ^ nat (expo a - expo b) \<le> mant b)"

text \<open>The constant \<^verbatim>\<open>0.80f\<close>: bit pattern \<^verbatim>\<open>0x3F4CCCCD\<close>, that is \<open>13421773 / 2 ^ 24\<close>.\<close>

definition float_0_80 :: binary32 where
  "float_0_80 = Binary32 13421773 (- 24)"

section \<open>The type-erased dynamic array\<close>

text \<open>
  An \<^verbatim>\<open>fm_vector\<close> is modelled by its live elements: \<open>data\<close> lists the \<^verbatim>\<open>length\<close> elements in
  use, so the C field \<^verbatim>\<open>length\<close> is \<open>vec_length\<close>. An element is the \<open>stride\<close> bytes of a key
  or value, or the cached digest. Reading at or past \<^verbatim>\<open>length\<close> has no defined result
  (\<open>None\<close>). Allocation is taken to succeed.
\<close>

record 'a fm_vector =
  data :: "'a list"
  capacity :: nat
  stride :: nat

definition vec_length :: "'a fm_vector \<Rightarrow> nat" where
  "vec_length vec = length (data vec)"

definition fm_vec_init :: "nat \<Rightarrow> nat \<Rightarrow> 'a fm_vector" where
  "fm_vec_init stride' cap = \<lparr>data = [], capacity = cap, stride = stride'\<rparr>"

definition fm_vec_grow :: "'a fm_vector \<Rightarrow> 'a fm_vector" where
  "fm_vec_grow vec =
     vec\<lparr>capacity := (if capacity vec = 0 then 8 else sz (capacity vec * 2))\<rparr>"

definition fm_vec_push :: "'a fm_vector \<Rightarrow> 'a \<Rightarrow> 'a fm_vector" where
  "fm_vec_push vec item =
     (let vec = (if capacity vec \<le> vec_length vec then fm_vec_grow vec else vec)
      in vec\<lparr>data := data vec @ [item]\<rparr>)"

definition fm_vec_at :: "'a fm_vector \<Rightarrow> nat \<Rightarrow> 'a option" where
  "fm_vec_at vec index = (if index < vec_length vec then Some (data vec ! index) else None)"

text \<open>\<^verbatim>\<open>memcpy(dst, src, n)\<close> on two byte blobs: the first \<open>n\<close> bytes of \<open>dst\<close> are replaced.\<close>

definition memcpy_bytes :: "byte list \<Rightarrow> byte list \<Rightarrow> nat \<Rightarrow> byte list" where
  "memcpy_bytes dst src n = take n src @ drop n dst"

section \<open>The dense map\<close>

definition FM_EMPTY_IDX :: nat where
  "FM_EMPTY_IDX = 0xFFFFFFFF"

record fastmap =
  keys :: "byte list fm_vector"
  values_v :: "byte list fm_vector"
  hashes :: "64 word fm_vector"
  buckets :: "nat list"
  bucket_count :: nat
  bucket_mask :: nat
  key_size :: nat
  val_size :: nat
  max_load_factor :: binary32

definition fm_init :: "nat \<Rightarrow> nat \<Rightarrow> fastmap" where
  "fm_init key_size' val_size' =
     \<lparr>keys = fm_vec_init key_size' 8,
      values_v = fm_vec_init val_size' 8,
      hashes = fm_vec_init 8 8,
      buckets = replicate 16 FM_EMPTY_IDX,
      bucket_count = 16,
      bucket_mask = 15,
      key_size = key_size',
      val_size = val_size',
      max_load_factor = float_0_80\<rparr>"

text \<open>\<^verbatim>\<open>hash & mask\<close> and the probe distance \<^verbatim>\<open>(bucket_idx + mask + 1 - ideal_idx) & mask\<close>.\<close>

definition hash_and_mask :: "64 word \<Rightarrow> nat \<Rightarrow> nat" where
  "hash_and_mask hash mask' = unat (hash AND word_of_nat mask')"

definition probe_dist :: "nat \<Rightarrow> nat \<Rightarrow> nat \<Rightarrow> nat" where
  "probe_dist bucket_idx mask' ideal_idx =
     u32 (sz_sub (sz (sz (bucket_idx + mask') + 1)) ideal_idx AND mask')"

definition next_bucket :: "nat \<Rightarrow> nat \<Rightarrow> nat" where
  "next_bucket bucket_idx mask' = sz (bucket_idx + 1) AND mask'"

subsection \<open>Robin Hood placement and resize\<close>

text \<open>
  The \<^verbatim>\<open>while (true)\<close> loops are partial functions: \<open>None\<close> is a call with no defined result,
  because the loop never returns or because it reads outside an array.
\<close>

partial_function (option) fm_place_index_loop ::
  "nat list \<Rightarrow> nat \<Rightarrow> 64 word fm_vector \<Rightarrow> nat \<Rightarrow> nat \<Rightarrow> nat \<Rightarrow> nat list option" where
  "fm_place_index_loop bucks mask' hashes_vec bucket_idx dist vec_idx =
     (if length bucks \<le> bucket_idx then None
      else if bucks ! bucket_idx = FM_EMPTY_IDX then Some (bucks[bucket_idx := vec_idx])
      else (case fm_vec_at hashes_vec (bucks ! bucket_idx) of
              None \<Rightarrow> None
            | Some existing_hash \<Rightarrow>
                if probe_dist bucket_idx mask' (hash_and_mask existing_hash mask') < dist
                then fm_place_index_loop (bucks[bucket_idx := vec_idx]) mask' hashes_vec
                       (next_bucket bucket_idx mask')
                       (u32 (probe_dist bucket_idx mask' (hash_and_mask existing_hash mask') + 1))
                       (bucks ! bucket_idx)
                else fm_place_index_loop bucks mask' hashes_vec
                       (next_bucket bucket_idx mask') (u32 (dist + 1)) vec_idx))"

declare fm_place_index_loop.simps [code]

definition fm_place_index ::
  "nat list \<Rightarrow> nat \<Rightarrow> 64 word \<Rightarrow> nat \<Rightarrow> 64 word fm_vector \<Rightarrow> nat list option" where
  "fm_place_index bucks mask' hash vec_idx hashes_vec =
     fm_place_index_loop bucks mask' hashes_vec (hash_and_mask hash mask') 0 vec_idx"

function fm_resize_loop :: "fastmap \<Rightarrow> nat \<Rightarrow> nat \<Rightarrow> nat list \<Rightarrow> nat list option" where
  "fm_resize_loop m new_mask i new_buckets =
     (if i < vec_length (keys m)
      then (case fm_vec_at (hashes m) i of
              None \<Rightarrow> None
            | Some h \<Rightarrow>
                (case fm_place_index new_buckets new_mask h (u32 i) (hashes m) of
                   None \<Rightarrow> None
                 | Some new_buckets' \<Rightarrow> fm_resize_loop m new_mask (i + 1) new_buckets'))
      else Some new_buckets)"
  by pat_completeness auto
termination
  by (relation "measure (\<lambda>(m, k, i, b). vec_length (keys m) - i)") auto

declare fm_resize_loop.simps [simp del]

definition fm_resize :: "fastmap \<Rightarrow> nat \<Rightarrow> fastmap option" where
  "fm_resize m new_capacity =
     (let new_buckets = replicate new_capacity FM_EMPTY_IDX;
          new_mask = sz_sub new_capacity 1
      in case fm_resize_loop m new_mask 0 new_buckets of
           None \<Rightarrow> None
         | Some new_buckets' \<Rightarrow>
             Some (m\<lparr>buckets := new_buckets', bucket_count := new_capacity,
                     bucket_mask := new_mask\<rparr>))"

subsection \<open>Put\<close>

definition fm_load_check :: "fastmap \<Rightarrow> bool" where
  "fm_load_check m =
     binary32_le (binary32_mult (binary32_of_size (bucket_count m)) (max_load_factor m))
       (binary32_of_size (vec_length (keys m)))"

text \<open>
  The probe of \<^verbatim>\<open>fm_put\<close>: \<open>Some (Some idx)\<close> when the key is found at dense position \<open>idx\<close>,
  \<open>Some None\<close> when the loop breaks (an empty slot or the Robin Hood early exit).
\<close>

partial_function (option) fm_put_probe ::
  "fastmap \<Rightarrow> byte list \<Rightarrow> nat \<Rightarrow> nat \<Rightarrow> nat option option" where
  "fm_put_probe m key bucket_idx dist =
     (if length (buckets m) \<le> bucket_idx then None
      else if buckets m ! bucket_idx = FM_EMPTY_IDX then Some None
      else (case fm_vec_at (hashes m) (buckets m ! bucket_idx) of
              None \<Rightarrow> None
            | Some existing_hash \<Rightarrow>
                if probe_dist bucket_idx (bucket_mask m)
                     (hash_and_mask existing_hash (bucket_mask m)) < dist
                then Some None
                else (case fm_vec_at (keys m) (buckets m ! bucket_idx) of
                        None \<Rightarrow> None
                      | Some existing_key \<Rightarrow>
                          if take (key_size m) existing_key = take (key_size m) key
                          then Some (Some (buckets m ! bucket_idx))
                          else fm_put_probe m key (next_bucket bucket_idx (bucket_mask m))
                                 (sz (dist + 1)))))"

declare fm_put_probe.simps [code]

definition fm_put :: "bool \<Rightarrow> fastmap \<Rightarrow> byte list \<Rightarrow> byte list \<Rightarrow> fastmap option" where
  "fm_put int128 m key value =
     (if length key < key_size m \<or> length value < val_size m then None
      else case (if fm_load_check m then fm_resize m (sz (bucket_count m * 2)) else Some m) of
        None \<Rightarrow> None
      | Some m \<Rightarrow>
          (let hash = fm_hash int128 key (key_size m) in
           case fm_put_probe m key (hash_and_mask hash (bucket_mask m)) 0 of
             None \<Rightarrow> None
           | Some (Some idx) \<Rightarrow>
               (case fm_vec_at (values_v m) idx of
                  None \<Rightarrow> None
                | Some old \<Rightarrow>
                    Some (m\<lparr>values_v := (values_v m)\<lparr>data :=
                            (data (values_v m))[idx := memcpy_bytes old value (val_size m)]\<rparr>\<rparr>))
           | Some None \<Rightarrow>
               (let new_idx = u32 (vec_length (keys m));
                    m = m\<lparr>keys := fm_vec_push (keys m) (take (stride (keys m)) key)\<rparr>;
                    m = m\<lparr>values_v := fm_vec_push (values_v m) (take (stride (values_v m)) value)\<rparr>;
                    m = m\<lparr>hashes := fm_vec_push (hashes m) hash\<rparr>
                in case fm_place_index (buckets m) (bucket_mask m) hash new_idx (hashes m) of
                     None \<Rightarrow> None
                   | Some bucks \<Rightarrow> Some (m\<lparr>buckets := bucks\<rparr>))))"

subsection \<open>Get\<close>

text \<open>
  \<^verbatim>\<open>fm_get\<close> returns \<^verbatim>\<open>NULL\<close> (\<open>Some None\<close>) or the address of the value at a dense position
  (\<open>Some (Some idx)\<close>, the pointer \<^verbatim>\<open>fm_vec_at(&map->values, idx)\<close>).
\<close>

partial_function (option) fm_get_loop ::
  "fastmap \<Rightarrow> byte list \<Rightarrow> nat \<Rightarrow> nat \<Rightarrow> nat option option" where
  "fm_get_loop m key bucket_idx dist =
     (if length (buckets m) \<le> bucket_idx then None
      else if buckets m ! bucket_idx = FM_EMPTY_IDX then Some None
      else (case fm_vec_at (keys m) (buckets m ! bucket_idx) of
              None \<Rightarrow> None
            | Some existing_key \<Rightarrow>
                if take (key_size m) existing_key = take (key_size m) key
                then Some (Some (buckets m ! bucket_idx))
                else (case fm_vec_at (hashes m) (buckets m ! bucket_idx) of
                        None \<Rightarrow> None
                      | Some existing_hash \<Rightarrow>
                          if probe_dist bucket_idx (bucket_mask m)
                               (hash_and_mask existing_hash (bucket_mask m)) < dist
                          then Some None
                          else fm_get_loop m key (next_bucket bucket_idx (bucket_mask m))
                                 (sz (dist + 1)))))"

declare fm_get_loop.simps [code]

definition fm_get :: "bool \<Rightarrow> fastmap \<Rightarrow> byte list \<Rightarrow> nat option option" where
  "fm_get int128 m key =
     (if length key < key_size m then None
      else fm_get_loop m key
             (hash_and_mask (fm_hash int128 key (key_size m)) (bucket_mask m)) 0)"

text \<open>The bytes a returned pointer refers to.\<close>

definition value_at :: "fastmap \<Rightarrow> nat \<Rightarrow> byte list option" where
  "value_at m idx = fm_vec_at (values_v m) idx"

subsection \<open>Erase\<close>

partial_function (option) fm_update_bucket_loop ::
  "fastmap \<Rightarrow> nat \<Rightarrow> nat \<Rightarrow> nat \<Rightarrow> fastmap option" where
  "fm_update_bucket_loop m old_vec_idx new_vec_idx bucket_idx =
     (if length (buckets m) \<le> bucket_idx then None
      else if buckets m ! bucket_idx = old_vec_idx
      then Some (m\<lparr>buckets := (buckets m)[bucket_idx := new_vec_idx]\<rparr>)
      else fm_update_bucket_loop m old_vec_idx new_vec_idx
             (next_bucket bucket_idx (bucket_mask m)))"

declare fm_update_bucket_loop.simps [code]

definition fm_update_bucket_for_moved_item :: "fastmap \<Rightarrow> nat \<Rightarrow> nat \<Rightarrow> fastmap option" where
  "fm_update_bucket_for_moved_item m old_vec_idx new_vec_idx =
     (case fm_vec_at (hashes m) new_vec_idx of
        None \<Rightarrow> None
      | Some hash \<Rightarrow>
          fm_update_bucket_loop m old_vec_idx new_vec_idx
            (hash_and_mask hash (bucket_mask m)))"

partial_function (option) fm_backshift_loop ::
  "fastmap \<Rightarrow> nat \<Rightarrow> nat \<Rightarrow> fastmap option" where
  "fm_backshift_loop m hole_idx next_idx =
     (if length (buckets m) \<le> next_idx \<or> length (buckets m) \<le> hole_idx then None
      else if buckets m ! next_idx = FM_EMPTY_IDX
      then Some (m\<lparr>buckets := (buckets m)[hole_idx := FM_EMPTY_IDX]\<rparr>)
      else (case fm_vec_at (hashes m) (buckets m ! next_idx) of
              None \<Rightarrow> None
            | Some next_hash \<Rightarrow>
                if sz_sub (sz (hole_idx + bucket_count m))
                     (hash_and_mask next_hash (bucket_mask m)) AND bucket_mask m
                   < sz_sub (sz (next_idx + bucket_count m))
                       (hash_and_mask next_hash (bucket_mask m)) AND bucket_mask m
                then fm_backshift_loop
                       (m\<lparr>buckets := (buckets m)[hole_idx := buckets m ! next_idx]\<rparr>)
                       next_idx (next_bucket next_idx (bucket_mask m))
                else fm_backshift_loop m hole_idx (next_bucket next_idx (bucket_mask m))))"

declare fm_backshift_loop.simps [code]

text \<open>
  The swap-and-pop of the three vectors: the last entry is copied over position
  \<open>vec_idx\<close> (\<open>key_size\<close>, \<open>val_size\<close> and eight bytes), then each \<^verbatim>\<open>length\<close> is decremented.
\<close>

definition vec_pop :: "'a fm_vector \<Rightarrow> 'a fm_vector option" where
  "vec_pop vec = (if data vec = [] then None else Some (vec\<lparr>data := butlast (data vec)\<rparr>))"

definition fm_move_last :: "fastmap \<Rightarrow> nat \<Rightarrow> nat \<Rightarrow> fastmap option" where
  "fm_move_last m vec_idx last_vec_idx =
     (case (fm_vec_at (keys m) vec_idx, fm_vec_at (keys m) last_vec_idx) of
        (Some dst_k, Some src_k) \<Rightarrow>
          (case (fm_vec_at (values_v m) vec_idx, fm_vec_at (values_v m) last_vec_idx) of
             (Some dst_v, Some src_v) \<Rightarrow>
               (case (fm_vec_at (hashes m) vec_idx, fm_vec_at (hashes m) last_vec_idx) of
                  (Some dst_h, Some src_h) \<Rightarrow>
                    Some (m\<lparr>keys := (keys m)\<lparr>data :=
                               (data (keys m))[vec_idx := memcpy_bytes dst_k src_k (key_size m)]\<rparr>,
                             values_v := (values_v m)\<lparr>data :=
                               (data (values_v m))[vec_idx := memcpy_bytes dst_v src_v (val_size m)]\<rparr>,
                             hashes := (hashes m)\<lparr>data := (data (hashes m))[vec_idx := src_h]\<rparr>\<rparr>)
                | _ \<Rightarrow> None)
           | _ \<Rightarrow> None)
      | _ \<Rightarrow> None)"

definition fm_erase_found :: "fastmap \<Rightarrow> nat \<Rightarrow> nat \<Rightarrow> (bool \<times> fastmap) option" where
  "fm_erase_found m bucket_idx vec_idx =
     (let last_vec_idx = u32 (u32 (vec_length (keys m)) + 2 ^ 32 - 1) in
      case (if vec_idx \<noteq> last_vec_idx
            then (case fm_move_last m vec_idx last_vec_idx of
                    None \<Rightarrow> None
                  | Some m \<Rightarrow> fm_update_bucket_for_moved_item m last_vec_idx vec_idx)
            else Some m) of
        None \<Rightarrow> None
      | Some m \<Rightarrow>
          (case (vec_pop (keys m), vec_pop (values_v m), vec_pop (hashes m)) of
             (Some ks, Some vs, Some hs) \<Rightarrow>
               (case fm_backshift_loop (m\<lparr>keys := ks, values_v := vs, hashes := hs\<rparr>)
                       bucket_idx (next_bucket bucket_idx (bucket_mask m)) of
                  None \<Rightarrow> None
                | Some m \<Rightarrow> Some (True, m))
           | _ \<Rightarrow> None))"

partial_function (option) fm_erase_loop ::
  "fastmap \<Rightarrow> byte list \<Rightarrow> nat \<Rightarrow> nat \<Rightarrow> (bool \<times> fastmap) option" where
  "fm_erase_loop m key bucket_idx dist =
     (if length (buckets m) \<le> bucket_idx then None
      else if buckets m ! bucket_idx = FM_EMPTY_IDX then Some (False, m)
      else (case fm_vec_at (hashes m) (buckets m ! bucket_idx) of
              None \<Rightarrow> None
            | Some existing_hash \<Rightarrow>
                if probe_dist bucket_idx (bucket_mask m)
                     (hash_and_mask existing_hash (bucket_mask m)) < dist
                then Some (False, m)
                else (case fm_vec_at (keys m) (buckets m ! bucket_idx) of
                        None \<Rightarrow> None
                      | Some current_key \<Rightarrow>
                          if take (key_size m) current_key = take (key_size m) key
                          then fm_erase_found m bucket_idx (buckets m ! bucket_idx)
                          else fm_erase_loop m key (next_bucket bucket_idx (bucket_mask m))
                                 (sz (dist + 1)))))"

declare fm_erase_loop.simps [code]

definition fm_erase :: "bool \<Rightarrow> fastmap \<Rightarrow> byte list \<Rightarrow> (bool \<times> fastmap) option" where
  "fm_erase int128 m key =
     (if length key < key_size m then None
      else fm_erase_loop m key
             (hash_and_mask (fm_hash int128 key (key_size m)) (bucket_mask m)) 0)"

section \<open>Invariants of the bucket index\<close>

text \<open>
  With \<open>bucket_count\<close> a power of two and \<open>bucket_mask = bucket_count - 1\<close>, \<^verbatim>\<open>hash & mask\<close> is
  the ideal slot \<open>ideal\<close>, the masked difference is the cyclic distance \<open>cdist\<close> from the
  ideal slot forward to a slot, and the masked increment is the cyclic successor \<open>nxt\<close>.
\<close>

definition ideal :: "nat \<Rightarrow> 64 word \<Rightarrow> nat" where
  "ideal bc h = unat h mod bc"

definition cdist :: "nat \<Rightarrow> nat \<Rightarrow> nat \<Rightarrow> nat" where
  "cdist bc i b = (b + bc - i) mod bc"

definition nxt :: "nat \<Rightarrow> nat \<Rightarrow> nat" where
  "nxt bc b = (b + 1) mod bc"

definition prv :: "nat \<Rightarrow> nat \<Rightarrow> nat" where
  "prv bc b = (b + bc - 1) mod bc"

text \<open>
  The bucket array is well shaped when its size is a power of two between \<open>2 ^ 4\<close> (the
  initial size) and \<open>2 ^ 32\<close>, so that every slot index and every probe distance fits the
  32-bit variables of the probing loops.
\<close>

definition table_shape :: "nat \<Rightarrow> nat \<Rightarrow> bool" where
  "table_shape bc mask' = (\<exists>k. 4 \<le> k \<and> k \<le> 32 \<and> bc = 2 ^ k \<and> mask' = bc - 1)"

text \<open>The dense positions referenced by the non-empty slots, with multiplicity.\<close>

definition slots :: "nat list \<Rightarrow> nat multiset" where
  "slots T = filter_mset (\<lambda>x. x \<noteq> FM_EMPTY_IDX) (mset T)"

text \<open>
  \<open>dists bc H T b\<close> is the probe distance of the entry in slot \<open>b\<close>, from the cached digests
  \<open>H\<close>. The Robin Hood order \<open>rh_ok_d\<close>: an entry at distance \<open>d + 1\<close> has an occupied slot
  before it, whose entry is at distance \<open>d\<close> or more.
\<close>

definition dists :: "nat \<Rightarrow> 64 word list \<Rightarrow> nat list \<Rightarrow> nat \<Rightarrow> nat option" where
  "dists bc H T b =
     (if T ! b = FM_EMPTY_IDX then None else Some (cdist bc (ideal bc (H ! (T ! b))) b))"

definition rh_ok_d :: "nat \<Rightarrow> (nat \<Rightarrow> nat option) \<Rightarrow> bool" where
  "rh_ok_d bc D = (\<forall>b<bc. \<forall>d. D b = Some (Suc d) \<longrightarrow> (\<exists>d'. D (prv bc b) = Some d' \<and> d \<le> d'))"

text \<open>
  The dense store is consistent when the three vectors have one length and every cached
  digest is the hash of the key stored beside it.
\<close>

definition dense_ok :: "bool \<Rightarrow> fastmap \<Rightarrow> bool" where
  "dense_ok int128 m =
     (vec_length (values_v m) = vec_length (keys m) \<and>
      vec_length (hashes m) = vec_length (keys m) \<and>
      (\<forall>i<vec_length (keys m).
         data (hashes m) ! i = fm_hash int128 (data (keys m) ! i) (key_size m)))"

text \<open>
  \<open>fm_ok\<close> collects what every operation relies on and re-establishes: a consistent dense
  store of distinct keys of \<open>key_size\<close> bytes, a well-shaped bucket array with a free slot,
  whose non-empty slots reference each dense position exactly once, in Robin Hood order.
\<close>

definition fm_ok :: "bool \<Rightarrow> fastmap \<Rightarrow> bool" where
  "fm_ok int128 m =
     (dense_ok int128 m \<and>
      stride (keys m) = key_size m \<and> stride (values_v m) = val_size m \<and>
      (\<forall>k\<in>set (data (keys m)). length k = key_size m) \<and>
      (\<forall>v\<in>set (data (values_v m)). length v = val_size m) \<and>
      distinct (data (keys m)) \<and>
      table_shape (bucket_count m) (bucket_mask m) \<and>
      length (buckets m) = bucket_count m \<and>
      vec_length (keys m) < bucket_count m \<and>
      slots (buckets m) = mset [0..<vec_length (keys m)] \<and>
      rh_ok_d (bucket_count m) (dists (bucket_count m) (data (hashes m)) (buckets m)) \<and>
      max_load_factor m = float_0_80)"

text \<open>The value of a binary32 number with exponent at least \<open>- 24\<close>, scaled by \<open>2 ^ 24\<close>.\<close>

definition bval24 :: "binary32 \<Rightarrow> nat" where
  "bval24 x = mant x * 2 ^ nat (expo x + 24)"

text \<open>
  The dense vectors after the swap-and-pop of erase: position \<open>p\<close> takes the last element,
  then the last element is dropped (when \<open>p\<close> is the last position the copy changes nothing).
\<close>

definition swap_remove :: "nat \<Rightarrow> 'a list \<Rightarrow> 'a list" where
  "swap_remove p xs = butlast (xs[p := last xs])"

text \<open>The map after erasing dense position \<open>p\<close>, with bucket array \<open>T'\<close>.\<close>

definition erased :: "fastmap \<Rightarrow> nat \<Rightarrow> nat list \<Rightarrow> fastmap" where
  "erased m p T' =
     m\<lparr>keys := (keys m)\<lparr>data := swap_remove p (data (keys m))\<rparr>,
       values_v := (values_v m)\<lparr>data := swap_remove p (data (values_v m))\<rparr>,
       hashes := (hashes m)\<lparr>data := swap_remove p (data (hashes m))\<rparr>,
       buckets := T'\<rparr>"

text \<open>
  The states an owner of the map can build: \<^verbatim>\<open>fm_init\<close>, then any calls of \<^verbatim>\<open>fm_put\<close>,
  \<^verbatim>\<open>fm_erase\<close> and the doubling \<^verbatim>\<open>fm_resize\<close> that return. Dense positions and bucket slots
  are 32-bit values, one of which is the EMPTY mark: a put is considered below \<open>2 ^ 31\<close>
  entries and a resize up to \<open>2 ^ 32\<close> buckets.
\<close>

inductive fm_reach :: "bool \<Rightarrow> fastmap \<Rightarrow> bool" for int128 :: bool where
  reach_init: "fm_reach int128 (fm_init ks vs)"
| reach_put: "fm_reach int128 m \<Longrightarrow> vec_length (keys m) < 2 ^ 31 \<Longrightarrow>
      fm_put int128 m key value = Some m' \<Longrightarrow> fm_reach int128 m'"
| reach_erase: "fm_reach int128 m \<Longrightarrow> fm_erase int128 m key = Some (found, m') \<Longrightarrow>
      fm_reach int128 m'"
| reach_resize: "fm_reach int128 m \<Longrightarrow> bucket_count m < 2 ^ 32 \<Longrightarrow>
      fm_resize m (2 * bucket_count m) = Some m' \<Longrightarrow> fm_reach int128 m'"

text \<open>
  The load bound that holds between calls: the check of \<^verbatim>\<open>fm_put\<close> precedes the insertion, so
  \<open>length - 1 < bucket_count * 0.80f\<close>, scaled here by \<open>2 ^ 24\<close>.
\<close>

definition load_ok :: "fastmap \<Rightarrow> bool" where
  "load_ok m = (vec_length (keys m) * 2 ^ 24 < 13421773 * bucket_count m + 2 ^ 24)"

text \<open>The dense position of a key: the first position of the key vector that holds it.\<close>

fun key_index :: "'a list \<Rightarrow> 'a \<Rightarrow> nat option" where
  "key_index [] k = None"
| "key_index (x # xs) k = (if x = k then Some 0 else map_option Suc (key_index xs k))"

text \<open>
  A concrete map for the examples: \<^verbatim>\<open>FM_INIT(int, int)\<close> after \<^verbatim>\<open>FM_PUT(&map, int, 10, int, 100)\<close>,
  with the 128-bit \<^verbatim>\<open>fm_wymix\<close>.
\<close>

definition example_map :: fastmap where
  "example_map =
     \<lparr>keys = \<lparr>data = [[10, 0, 0, 0]], capacity = 8, stride = 4\<rparr>,
      values_v = \<lparr>data = [[100, 0, 0, 0]], capacity = 8, stride = 4\<rparr>,
      hashes = \<lparr>data = [9524804718273563366], capacity = 8, stride = 8\<rparr>,
      buckets = [4294967295, 4294967295, 4294967295, 4294967295, 4294967295, 4294967295, 0,
                 4294967295, 4294967295, 4294967295, 4294967295, 4294967295, 4294967295,
                 4294967295, 4294967295, 4294967295],
      bucket_count = 16, bucket_mask = 15, key_size = 4, val_size = 4,
      max_load_factor = Binary32 13421773 (- 24)\<rparr>"

text \<open>A sequence of \<^verbatim>\<open>fm_put\<close> calls, in order.\<close>

fun fm_put_all :: "bool \<Rightarrow> fastmap \<Rightarrow> (byte list \<times> byte list) list \<Rightarrow> fastmap option" where
  "fm_put_all int128 m [] = Some m"
| "fm_put_all int128 m ((key, value) # kvs) =
     (case fm_put int128 m key value of None \<Rightarrow> None | Some m' \<Rightarrow> fm_put_all int128 m' kvs)"

text \<open>The example map after \<^verbatim>\<open>FM_PUT(&map, int, 20, int, 200)\<close>.\<close>

definition example_map2 :: fastmap where
  "example_map2 =
     \<lparr>keys = \<lparr>data = [[10, 0, 0, 0], [20, 0, 0, 0]], capacity = 8, stride = 4\<rparr>,
      values_v = \<lparr>data = [[100, 0, 0, 0], [200, 0, 0, 0]], capacity = 8, stride = 4\<rparr>,
      hashes = \<lparr>data = [9524804718273563366, 5028400634280894787], capacity = 8, stride = 8\<rparr>,
      buckets = [4294967295, 4294967295, 4294967295, 1, 4294967295, 4294967295, 0,
                 4294967295, 4294967295, 4294967295, 4294967295, 4294967295, 4294967295,
                 4294967295, 4294967295, 4294967295],
      bucket_count = 16, bucket_mask = 15, key_size = 4, val_size = 4,
      max_load_factor = Binary32 13421773 (- 24)\<rparr>"

text \<open>
  Thirteen puts into a fresh \<^verbatim>\<open>FM_INIT(int, int)\<close> map: keys \<open>0, \<dots>, 12\<close>, and the map they
  leave, with sixteen buckets.
\<close>

definition thirteen_puts :: "(byte list \<times> byte list) list" where
  "thirteen_puts =
     [([0, 0, 0, 0], [0, 1, 0, 0]), ([1, 0, 0, 0], [1, 1, 0, 0]), ([2, 0, 0, 0], [2, 1, 0, 0]),
      ([3, 0, 0, 0], [3, 1, 0, 0]), ([4, 0, 0, 0], [4, 1, 0, 0]), ([5, 0, 0, 0], [5, 1, 0, 0]),
      ([6, 0, 0, 0], [6, 1, 0, 0]), ([7, 0, 0, 0], [7, 1, 0, 0]), ([8, 0, 0, 0], [8, 1, 0, 0]),
      ([9, 0, 0, 0], [9, 1, 0, 0]), ([10, 0, 0, 0], [10, 1, 0, 0]), ([11, 0, 0, 0], [11, 1, 0, 0]),
      ([12, 0, 0, 0], [12, 1, 0, 0])]"

definition full_map :: fastmap where
  "full_map =
     \<lparr>keys = \<lparr>data = [[0, 0, 0, 0], [1, 0, 0, 0], [2, 0, 0, 0], [3, 0, 0, 0], [4, 0, 0, 0],
                      [5, 0, 0, 0], [6, 0, 0, 0], [7, 0, 0, 0], [8, 0, 0, 0], [9, 0, 0, 0],
                      [10, 0, 0, 0], [11, 0, 0, 0], [12, 0, 0, 0]],
              capacity = 16, stride = 4\<rparr>,
      values_v = \<lparr>data = [[0, 1, 0, 0], [1, 1, 0, 0], [2, 1, 0, 0], [3, 1, 0, 0], [4, 1, 0, 0],
                          [5, 1, 0, 0], [6, 1, 0, 0], [7, 1, 0, 0], [8, 1, 0, 0], [9, 1, 0, 0],
                          [10, 1, 0, 0], [11, 1, 0, 0], [12, 1, 0, 0]],
                  capacity = 16, stride = 4\<rparr>,
      hashes = \<lparr>data = [14168740207302788609, 4026802123573173867, 4478733138256410452,
                        10475444317061615575, 3593457408663545214, 7286753298905382352,
                        7720071642178279133, 16041238503755263244, 3073901928341674322,
                        11378743103767564797, 9524804718273563366, 17829637096532689176,
                        10927383989794683112],
                capacity = 16, stride = 8\<rparr>,
      buckets = [5, 0, 8, 4294967295, 2, 4294967295, 10, 3, 11, 12, 4294967295, 1, 7, 6, 9, 4],
      bucket_count = 16, bucket_mask = 15, key_size = 4, val_size = 4,
      max_load_factor = Binary32 13421773 (- 24)\<rparr>"

text \<open>
  The rebuild of the bucket index in the words of the specification, for comparison with
  \<^verbatim>\<open>fm_resize\<close>: start from \<open>new_capacity\<close> EMPTY slots and, for the dense positions
  \<open>0, \<dots>, n - 1\<close> in order, place position \<open>i\<close> by its cached digest. The keys are not an
  argument.
\<close>

definition rebuild_index :: "64 word fm_vector \<Rightarrow> nat \<Rightarrow> nat \<Rightarrow> nat list option" where
  "rebuild_index hashes_vec n new_capacity =
     fold (\<lambda>i acc. case acc of
                      None \<Rightarrow> None
                    | Some T \<Rightarrow>
                        (case fm_vec_at hashes_vec i of
                           None \<Rightarrow> None
                         | Some digest \<Rightarrow>
                             fm_place_index T (sz_sub new_capacity 1) digest (u32 i) hashes_vec))
          [0..<n] (Some (replicate new_capacity FM_EMPTY_IDX))"

text \<open>The eight bytes of a pointer-typed key: the pointer's own bits.\<close>

definition pointer_key :: "64 word \<Rightarrow> byte list" where
  "pointer_key p = word_bytes 8 p"

text \<open>
  The map \<^verbatim>\<open>FM_PUT(&map, int, 3, int, 7)\<close> leaves when applied to \<open>full_map\<close>, where key \<open>3\<close>
  is stored at dense position \<open>3\<close>: thirty-two buckets.
\<close>

definition full_map_updated :: fastmap where
  "full_map_updated =
     full_map
       \<lparr>values_v := \<lparr>data = [[0, 1, 0, 0], [1, 1, 0, 0], [2, 1, 0, 0], [7, 0, 0, 0],
                             [4, 1, 0, 0], [5, 1, 0, 0], [6, 1, 0, 0], [7, 1, 0, 0],
                             [8, 1, 0, 0], [9, 1, 0, 0], [10, 1, 0, 0], [11, 1, 0, 0],
                             [12, 1, 0, 0]],
                     capacity = 16, stride = 4\<rparr>,
        buckets := [4294967295, 0, 4294967295, 4294967295, 4294967295, 4294967295, 10,
                    4294967295, 12, 4294967295, 4294967295, 1, 7, 4294967295, 4294967295,
                    4294967295, 5, 4294967295, 8, 4294967295, 2, 4294967295, 4294967295, 3,
                    11, 4294967295, 4294967295, 4294967295, 4294967295, 6, 9, 4],
        bucket_count := 32, bucket_mask := 31\<rparr>"

(*DEFS-END*)

section \<open>Machine arithmetic on a well-shaped table\<close>

lemma sz_id: "n < 2 ^ 64 \<Longrightarrow> sz n = n"
  by (simp add: sz_def)

lemma u32_id: "n < 2 ^ 32 \<Longrightarrow> u32 n = n"
  by (simp add: u32_def)

lemma sz_sub_id: "b \<le> a \<Longrightarrow> sz_sub a b = a - b"
  by (simp add: sz_sub_def)

lemma nat_and_pow2_minus_1: "(x::nat) AND (2 ^ k - 1) = x mod 2 ^ k"
proof -
  have "(2::nat) ^ k - 1 = mask k" by (simp only: mask_eq_exp_minus_1)
  then have "x AND (2 ^ k - 1) = take_bit k x" by (simp only: take_bit_eq_mask)
  then show ?thesis by (simp only: take_bit_eq_mod)
qed

lemma nat_and_pow2_minus_Suc0: "(x::nat) AND (2 ^ k - Suc 0) = x mod 2 ^ k"
  using nat_and_pow2_minus_1[of x k] by simp

lemma hash_and_mask_pow2:
  assumes "k \<le> 64"
  shows "hash_and_mask h (2 ^ k - 1) = unat h mod 2 ^ k"
proof -
  have "(word_of_nat (2 ^ k - 1) :: 64 word) = mask k"
    by (metis mask_eq_exp_minus_1 of_nat_mask_eq)
  then have "hash_and_mask h (2 ^ k - 1) = unat (take_bit k h)"
    by (simp only: hash_and_mask_def take_bit_eq_mask)
  also have "\<dots> = take_bit k (unat h)" by (simp only: unsigned_take_bit_eq)
  finally show ?thesis by (simp only: take_bit_eq_mod)
qed

lemma cdist_alt: "i < bc \<Longrightarrow> b < bc \<Longrightarrow> cdist bc i b = (if i \<le> b then b - i else b + bc - i)"
  by (auto simp: cdist_def mod_if)

lemma nxt_alt: "b < bc \<Longrightarrow> nxt bc b = (if b + 1 < bc then b + 1 else 0)"
  by (auto simp: nxt_def mod_if)

lemma prv_alt: "b < bc \<Longrightarrow> prv bc b = (if b = 0 then bc - 1 else b - 1)"
  by (auto simp: prv_def mod_if)

lemma ideal_lt: "0 < bc \<Longrightarrow> ideal bc h < bc"
  by (simp add: ideal_def)

lemma table_shape_bounds: "table_shape bc mask' \<Longrightarrow> 16 \<le> bc \<and> bc \<le> 2 ^ 32 \<and> mask' = bc - 1"
  unfolding table_shape_def
proof (elim exE conjE)
  fix k assume k: "4 \<le> k" "k \<le> 32" "bc = 2 ^ k" "mask' = bc - 1"
  have "(2::nat) ^ 4 \<le> 2 ^ k" using k(1) by (intro power_increasing) auto
  moreover have "(2::nat) ^ k \<le> 2 ^ 32" using k(2) by (intro power_increasing) auto
  ultimately show ?thesis using k by simp
qed

lemma shape_hash_and_mask:
  assumes "table_shape bc mask'"
  shows "hash_and_mask h mask' = ideal bc h"
proof -
  from assms obtain k where k: "k \<le> 32" "bc = 2 ^ k" "mask' = 2 ^ k - 1" by (auto simp: table_shape_def)
  then have "k \<le> 64" by simp
  from hash_and_mask_pow2[OF this] show ?thesis unfolding k ideal_def .
qed

lemma shape_next_bucket:
  assumes "table_shape bc mask'" "b < bc"
  shows "next_bucket b mask' = nxt bc b"
proof -
  from assms obtain k where k: "bc = 2 ^ k" "mask' = 2 ^ k - 1" by (auto simp: table_shape_def)
  have "bc \<le> 2 ^ 32" using table_shape_bounds[OF assms(1)] by simp
  then have "b + 1 < 2 ^ 64" using assms(2) by simp
  then show ?thesis by (simp add: next_bucket_def sz_id k nat_and_pow2_minus_Suc0 nxt_def)
qed

lemma shape_probe_dist:
  assumes "table_shape bc mask'" "b < bc" "i < bc"
  shows "probe_dist b mask' i = cdist bc i b"
proof -
  from assms obtain k where k: "bc = 2 ^ k" "mask' = 2 ^ k - 1" by (auto simp: table_shape_def)
  have bc: "16 \<le> bc" "bc \<le> 2 ^ 32" using table_shape_bounds[OF assms(1)] by simp_all
  have m: "b + mask' + 1 = b + bc" using bc k by simp
  have 1: "sz (sz (b + mask') + 1) = b + bc"
    using bc assms(2) m by (simp add: sz_id k)
  have 2: "sz_sub (b + bc) i = b + bc - i" using assms by (simp add: sz_sub_id)
  have 3: "(b + bc - i) mod bc < 2 ^ 32"
    using bc by (meson less_le_trans mod_less_divisor zero_less_numeral less_le_trans[of 0 16 bc])
  show ?thesis
    unfolding probe_dist_def 1 2 using 3
    by (simp add: k nat_and_pow2_minus_Suc0 cdist_def u32_id)
qed

lemma shape_hole_dist:
  assumes "table_shape bc mask'" "b < bc" "i < bc"
  shows "sz_sub (sz (b + bc)) i AND mask' = cdist bc i b"
proof -
  from assms obtain k where k: "bc = 2 ^ k" "mask' = 2 ^ k - 1" by (auto simp: table_shape_def)
  have bc: "16 \<le> bc" "bc \<le> 2 ^ 32" using table_shape_bounds[OF assms(1)] by simp_all
  have 1: "sz (b + bc) = b + bc"
    using bc assms(2) by (simp add: sz_id)
  have 2: "sz_sub (b + bc) i = b + bc - i" using assms by (simp add: sz_sub_id)
  show ?thesis
    unfolding 1 2 by (simp add: k nat_and_pow2_minus_Suc0 cdist_def)
qed

subsection \<open>Cyclic arithmetic\<close>

lemma nxt_lt: "0 < bc \<Longrightarrow> nxt bc b < bc"
  by (simp add: nxt_def)

lemma prv_lt: "0 < bc \<Longrightarrow> prv bc b < bc"
  by (simp add: prv_def)

lemma cdist_lt: "0 < bc \<Longrightarrow> cdist bc i b < bc"
  by (simp add: cdist_def)

lemma prv_nxt: "b < bc \<Longrightarrow> prv bc (nxt bc b) = b"
  by (cases "b + 1 < bc") (auto simp: nxt_alt prv_alt)

lemma nxt_prv: "b < bc \<Longrightarrow> nxt bc (prv bc b) = b"
  by (cases "b = 0") (auto simp: nxt_alt prv_alt)

lemma nxt_neq: "2 \<le> bc \<Longrightarrow> b < bc \<Longrightarrow> nxt bc b \<noteq> b"
  by (auto simp: nxt_alt)

lemma prv_neq: "2 \<le> bc \<Longrightarrow> b < bc \<Longrightarrow> prv bc b \<noteq> b"
  by (auto simp: prv_alt)

lemma prv_eq_iff: "b < bc \<Longrightarrow> b' < bc \<Longrightarrow> prv bc b' = b \<longleftrightarrow> b' = nxt bc b"
  using prv_nxt nxt_prv by metis

lemma cdist_self: "b < bc \<Longrightarrow> cdist bc b b = 0"
  by (simp add: cdist_alt)

lemma cdist_eq_0: "i < bc \<Longrightarrow> b < bc \<Longrightarrow> cdist bc i b = 0 \<longleftrightarrow> i = b"
  by (auto simp: cdist_alt)

lemma cdist_nxt_target:
  "b < bc \<Longrightarrow> e < bc \<Longrightarrow> b \<noteq> e \<Longrightarrow> cdist bc (nxt bc b) e + 1 = cdist bc b e"
  by (auto simp: cdist_alt nxt_alt nxt_lt split: if_splits)

lemma cdist_nxt_source:
  "i < bc \<Longrightarrow> b < bc \<Longrightarrow> cdist bc i b + 1 < bc \<Longrightarrow> cdist bc i (nxt bc b) = cdist bc i b + 1"
  by (auto simp: cdist_alt nxt_alt nxt_lt split: if_splits)

lemma cdist_prv_source:
  "i < bc \<Longrightarrow> b < bc \<Longrightarrow> 0 < cdist bc i b \<Longrightarrow> cdist bc i (prv bc b) + 1 = cdist bc i b"
  by (auto simp: cdist_alt prv_alt prv_lt split: if_splits)

subsection \<open>The multiset of referenced positions\<close>

lemma slots_replicate: "slots (replicate n FM_EMPTY_IDX) = {#}"
  by (simp add: slots_def filter_mset_eq_mempty_iff)

lemma slots_update:
  assumes "b < length T"
  shows "slots (T[b := v]) =
           (slots T - (if T ! b = FM_EMPTY_IDX then {#} else {#T ! b#}))
             + (if v = FM_EMPTY_IDX then {#} else {#v#})"
proof -
  have "mset (T[b := v]) = add_mset v (mset T - {#T ! b#})"
    using assms by (rule mset_update)
  then show ?thesis
    by (simp add: slots_def filter_diff_mset)
qed

lemma slots_nth: "b < length T \<Longrightarrow> T ! b \<noteq> FM_EMPTY_IDX \<Longrightarrow> T ! b \<in># slots T"
  by (simp add: slots_def)

lemma slots_member: "x \<in># slots T \<Longrightarrow> \<exists>b<length T. T ! b = x \<and> x \<noteq> FM_EMPTY_IDX"
  by (auto simp: slots_def in_set_conv_nth)

lemma slots_fill:
  "b < length T \<Longrightarrow> T ! b = FM_EMPTY_IDX \<Longrightarrow> v \<noteq> FM_EMPTY_IDX \<Longrightarrow>
     slots (T[b := v]) = add_mset v (slots T)"
  by (simp add: slots_update)

lemma slots_swap:
  "b < length T \<Longrightarrow> T ! b \<noteq> FM_EMPTY_IDX \<Longrightarrow> v \<noteq> FM_EMPTY_IDX \<Longrightarrow>
     add_mset (T ! b) (slots (T[b := v])) = add_mset v (slots T)"
  by (simp add: slots_update slots_nth)

lemma slots_clear:
  "b < length T \<Longrightarrow> T ! b \<noteq> FM_EMPTY_IDX \<Longrightarrow>
     add_mset (T ! b) (slots (T[b := FM_EMPTY_IDX])) = slots T"
  by (simp add: slots_update slots_nth)

lemma slots_size_le: "size (slots T) \<le> length T"
  unfolding slots_def by (metis size_filter_mset_lesseq size_mset)

lemma slots_empty_slot:
  assumes "size (slots T) < length T"
  shows "\<exists>e<length T. T ! e = FM_EMPTY_IDX"
proof (rule ccontr)
  assume "\<not> ?thesis"
  then have "\<forall>x\<in>set T. x \<noteq> FM_EMPTY_IDX" by (auto simp: in_set_conv_nth)
  then have "slots T = mset T" by (simp add: slots_def filter_mset_eq_conv)
  then show False using assms by simp
qed

lemma slots_unique:
  assumes "\<forall>x. count (slots T) x \<le> 1"
    and "b1 < length T" "b2 < length T" "T ! b1 = T ! b2" "T ! b1 \<noteq> FM_EMPTY_IDX"
  shows "b1 = b2"
proof (rule ccontr)
  assume ne: "b1 \<noteq> b2"
  let ?x = "T ! b1"
  have "(T[b1 := FM_EMPTY_IDX]) ! b2 = ?x" using ne assms by simp
  then have "?x \<in># slots (T[b1 := FM_EMPTY_IDX])"
    using slots_nth[of b2 "T[b1 := FM_EMPTY_IDX]"] assms by simp
  then have "0 < count (slots (T[b1 := FM_EMPTY_IDX])) ?x"
    by (simp only: count_greater_zero_iff)
  moreover have "count (slots T) ?x = Suc (count (slots (T[b1 := FM_EMPTY_IDX])) ?x)"
    using slots_clear[OF assms(2) assms(5)] by (metis count_add_mset)
  moreover have "count (slots T) ?x \<le> 1" using assms(1) by blast
  ultimately show False by linarith
qed

lemma count_mset_upt: "count (mset [0..<n]) x \<le> 1"
  by (metis count_mset_0_iff distinct_count_atmost_1 distinct_upt le_numeral_extra(4) zero_le_one nat_le_linear)

subsection \<open>Robin Hood order under a slot update\<close>

lemma dists_update:
  "b < length T \<Longrightarrow> dists bc H (T[b := v]) =
     (dists bc H T)(b := if v = FM_EMPTY_IDX then None else Some (cdist bc (ideal bc (H ! v)) b))"
  by (auto simp: dists_def fun_eq_iff)

lemma rh_ok_d_update:
  assumes rh: "rh_ok_d bc D" and bc: "2 \<le> bc" and b: "b < bc"
    and before: "0 < d \<longrightarrow> (\<exists>d'. D (prv bc b) = Some d' \<and> d \<le> d' + 1)"
    and after: "\<forall>d''. D (nxt bc b) = Some d'' \<longrightarrow> d'' \<le> d + 1"
  shows "rh_ok_d bc (D(b := Some d))"
  unfolding rh_ok_d_def
proof (intro allI impI)
  fix b' x assume b': "b' < bc" and x: "(D(b := Some d)) b' = Some (Suc x)"
  have pb: "prv bc b \<noteq> b" using prv_neq bc b by simp
  show "\<exists>d'. (D(b := Some d)) (prv bc b') = Some d' \<and> x \<le> d'"
  proof (cases "b' = b")
    case True
    with x have "d = Suc x" by simp
    with before obtain d' where "D (prv bc b) = Some d'" "d \<le> d' + 1" by auto
    then show ?thesis using True pb \<open>d = Suc x\<close> by auto
  next
    case False
    with x have Db': "D b' = Some (Suc x)" by simp
    show ?thesis
    proof (cases "prv bc b' = b")
      case True
      then have "b' = nxt bc b" using prv_eq_iff b b' by simp
      with after Db' have "Suc x \<le> d + 1" by auto
      then show ?thesis using True by simp
    next
      case False
      from rh Db' b' obtain d' where "D (prv bc b') = Some d'" "x \<le> d'"
        unfolding rh_ok_d_def by blast
      then show ?thesis using False by simp
    qed
  qed
qed

lemma rh_ok_d_empty_next:
  assumes "rh_ok_d bc D" "b < bc" "D b = None" "D (nxt bc b) = Some d"
  shows "d = 0"
proof (cases d)
  case (Suc x)
  have "nxt bc b < bc" using assms(2) by (simp add: nxt_lt)
  with assms(1,4) Suc obtain d' where "D (prv bc (nxt bc b)) = Some d'"
    unfolding rh_ok_d_def by blast
  then show ?thesis using assms(2,3) by (simp add: prv_nxt)
qed simp

lemma rh_ok_d_next:
  assumes "rh_ok_d bc D" "b < bc" "D b = Some d" "D (nxt bc b) = Some d''"
  shows "d'' \<le> d + 1"
proof (cases d'')
  case (Suc x)
  have "nxt bc b < bc" using assms(2) by (simp add: nxt_lt)
  with assms(1,4) Suc obtain d' where "D (prv bc (nxt bc b)) = Some d'" "x \<le> d'"
    unfolding rh_ok_d_def by blast
  then show ?thesis using assms(2,3) Suc by (simp add: prv_nxt)
qed simp

subsection \<open>Robin Hood placement\<close>

lemma fm_vec_at_data: "i < length (data vec) \<Longrightarrow> fm_vec_at vec i = Some (data vec ! i)"
  by (simp add: fm_vec_at_def vec_length_def)

lemma place_loop:
  assumes shape: "table_shape bc mask'"
    and H: "data hv = H"
  shows "\<lbrakk>length T = bc; \<forall>x\<in>#slots T. x < length H; rh_ok_d bc (dists bc H T);
          b < bc; v \<noteq> FM_EMPTY_IDX \<and> v < length H; cdist bc (ideal bc (H ! v)) b = d;
          0 < d \<longrightarrow> (\<exists>d'. dists bc H T (prv bc b) = Some d' \<and> d \<le> d' + 1);
          e < bc; T ! e = FM_EMPTY_IDX; cdist bc b e = \<mu>; d + \<mu> < bc\<rbrakk>
         \<Longrightarrow> \<exists>T'. fm_place_index_loop T mask' hv b d v = Some T' \<and> length T' = bc
                \<and> rh_ok_d bc (dists bc H T') \<and> slots T' = add_mset v (slots T)"
proof (induction \<mu> arbitrary: T b d v)
  case 0
  have bc: "16 \<le> bc" "bc \<le> 2 ^ 32" using table_shape_bounds[OF shape] by simp_all
  from 0 have "b = e" by (simp add: cdist_eq_0)
  then have emp: "T ! b = FM_EMPTY_IDX" using 0 by simp
  let ?T' = "T[b := v]"
  have 1: "fm_place_index_loop T mask' hv b d v = Some ?T'"
    using 0 emp by (subst fm_place_index_loop.simps) simp
  have Db: "dists bc H T b = None" using emp by (simp add: dists_def)
  have after: "\<forall>d''. dists bc H T (nxt bc b) = Some d'' \<longrightarrow> d'' \<le> d + 1"
    using rh_ok_d_empty_next[OF "0.prems"(3) "0.prems"(4) Db] by auto
  have "rh_ok_d bc ((dists bc H T)(b := Some d))"
    using rh_ok_d_update[OF "0.prems"(3) _ "0.prems"(4) "0.prems"(7) after] bc by simp
  then have 2: "rh_ok_d bc (dists bc H ?T')"
    using 0 by (simp add: dists_update)
  have 3: "slots ?T' = add_mset v (slots T)"
    using 0 emp by (simp add: slots_fill)
  show ?case using 1 2 3 0 by simp
next
  case (Suc \<mu>)
  have bc: "16 \<le> bc" "bc \<le> 2 ^ 32" using table_shape_bounds[OF shape] by simp_all
  show ?case
  proof (cases "T ! b = FM_EMPTY_IDX")
    case emp: True
    let ?T' = "T[b := v]"
    have 1: "fm_place_index_loop T mask' hv b d v = Some ?T'"
      using Suc.prems emp by (subst fm_place_index_loop.simps) simp
    have Db: "dists bc H T b = None" using emp by (simp add: dists_def)
    have after: "\<forall>d''. dists bc H T (nxt bc b) = Some d'' \<longrightarrow> d'' \<le> d + 1"
      using rh_ok_d_empty_next[OF Suc.prems(3) Suc.prems(4) Db] by auto
    have "rh_ok_d bc ((dists bc H T)(b := Some d))"
      using rh_ok_d_update[OF Suc.prems(3) _ Suc.prems(4) Suc.prems(7) after] bc by simp
    then have 2: "rh_ok_d bc (dists bc H ?T')"
      using Suc.prems by (simp add: dists_update)
    have 3: "slots ?T' = add_mset v (slots T)"
      using Suc.prems emp by (simp add: slots_fill)
    show ?thesis using 1 2 3 Suc.prems by simp
  next
    case occ: False
    define x where "x = T ! b"
    define ex where "ex = cdist bc (ideal bc (H ! x)) b"
    have xin: "x \<in># slots T" using occ Suc.prems(1,4) slots_nth x_def by simp
    then have xH: "x < length H" using Suc.prems(2) by blast
    have xne: "x \<noteq> FM_EMPTY_IDX" using occ x_def by simp
    have at: "fm_vec_at hv x = Some (H ! x)" using xH H by (simp add: fm_vec_at_data)
    have id: "ideal bc (H ! x) < bc" using bc by (simp add: ideal_lt)
    have pd: "probe_dist b mask' (hash_and_mask (H ! x) mask') = ex"
      using shape_probe_dist[OF shape Suc.prems(4) id] shape_hash_and_mask[OF shape]
      by (simp add: ex_def)
    have nb: "next_bucket b mask' = nxt bc b" using shape_next_bucket[OF shape Suc.prems(4)] .
    have bne: "b \<noteq> e" using occ Suc.prems by auto
    have mu': "cdist bc (nxt bc b) e = \<mu>"
      using cdist_nxt_target[OF Suc.prems(4) Suc.prems(8) bne] Suc.prems(10) by simp
    have nlt: "nxt bc b < bc" using bc by (simp add: nxt_lt)
    have Db: "dists bc H T b = Some ex" using occ by (simp add: dists_def ex_def x_def)
    show ?thesis
    proof (cases "ex < d")
      case True
      let ?T1 = "T[b := v]"
      have u: "u32 (ex + 1) = ex + 1" using True Suc.prems(11) bc by (intro u32_id) simp
      have step: "fm_place_index_loop T mask' hv b d v
                    = fm_place_index_loop ?T1 mask' hv (nxt bc b) (ex + 1) x"
        using Suc.prems(1,4) occ at pd nb True u
        by (subst fm_place_index_loop.simps) (simp add: x_def[symmetric])
      have after: "\<forall>d''. dists bc H T (nxt bc b) = Some d'' \<longrightarrow> d'' \<le> d + 1"
      proof (intro allI impI)
        fix d'' assume "dists bc H T (nxt bc b) = Some d''"
        from rh_ok_d_next[OF Suc.prems(3) Suc.prems(4) Db this] True show "d'' \<le> d + 1" by simp
      qed
      have "rh_ok_d bc ((dists bc H T)(b := Some d))"
        using rh_ok_d_update[OF Suc.prems(3) _ Suc.prems(4) Suc.prems(7) after] bc by simp
      then have rh1: "rh_ok_d bc (dists bc H ?T1)"
        using Suc.prems by (simp add: dists_update)
      have sl1: "add_mset x (slots ?T1) = add_mset v (slots T)"
        using slots_swap[of b T v] Suc.prems occ by (simp add: x_def)
      have val1: "\<forall>y\<in>#slots ?T1. y < length H"
      proof
        fix y assume "y \<in># slots ?T1"
        then have "y \<in># add_mset x (slots ?T1)" by simp
        then have "y \<in># add_mset v (slots T)" using sl1 by simp
        then have "y = v \<or> y \<in># slots T" by auto
        then show "y < length H" using Suc.prems(2,5) by auto
      qed
      have dv1: "cdist bc (ideal bc (H ! x)) (nxt bc b) = ex + 1"
        using cdist_nxt_source[OF id Suc.prems(4)] True Suc.prems(11) by (simp add: ex_def)
      have pred1: "0 < ex + 1 \<longrightarrow> (\<exists>d'. dists bc H ?T1 (prv bc (nxt bc b)) = Some d' \<and> ex + 1 \<le> d' + 1)"
        using Suc.prems(1,4,5,6) True by (simp add: prv_nxt dists_update)
      have e1: "?T1 ! e = FM_EMPTY_IDX" using bne Suc.prems by simp
      have "\<exists>T'. fm_place_index_loop ?T1 mask' hv (nxt bc b) (ex + 1) x = Some T' \<and> length T' = bc
                \<and> rh_ok_d bc (dists bc H T') \<and> slots T' = add_mset x (slots ?T1)"
        using Suc.IH[of ?T1 "nxt bc b" x "ex + 1"] Suc.prems(1,8,11) val1 rh1 nlt xne xH dv1 pred1 e1 mu' True
        by simp
      then show ?thesis using step sl1 by auto
    next
      case False
      have dlt: "d + 1 < bc" using Suc.prems(11) by simp
      have u: "u32 (d + 1) = d + 1" using dlt bc by (intro u32_id) simp
      have step: "fm_place_index_loop T mask' hv b d v
                    = fm_place_index_loop T mask' hv (nxt bc b) (d + 1) v"
        using Suc.prems(1,4) occ at pd nb False u
        by (subst fm_place_index_loop.simps) (simp add: x_def[symmetric])
      have idv: "ideal bc (H ! v) < bc" using bc by (simp add: ideal_lt)
      have dv1: "cdist bc (ideal bc (H ! v)) (nxt bc b) = d + 1"
        using cdist_nxt_source[OF idv Suc.prems(4)] dlt Suc.prems(6) by simp
      have pred1: "0 < d + 1 \<longrightarrow> (\<exists>d'. dists bc H T (prv bc (nxt bc b)) = Some d' \<and> d + 1 \<le> d' + 1)"
        using Suc.prems(4) False Db by (simp add: prv_nxt)
      have "\<exists>T'. fm_place_index_loop T mask' hv (nxt bc b) (d + 1) v = Some T' \<and> length T' = bc
                \<and> rh_ok_d bc (dists bc H T') \<and> slots T' = add_mset v (slots T)"
        using Suc.IH[of T "nxt bc b" v "d + 1"] Suc.prems(1,2,3,5,8,9,11) nlt dv1 pred1 mu'
        by simp
      then show ?thesis using step by auto
    qed
  qed
qed

lemma rh_ok_d_replicate: "rh_ok_d bc (dists bc H (replicate bc FM_EMPTY_IDX))"
proof -
  have "\<And>b. b < bc \<Longrightarrow> dists bc H (replicate bc FM_EMPTY_IDX) b = None"
    by (simp add: dists_def)
  moreover have "\<And>b. b < bc \<Longrightarrow> prv bc b < bc" by (simp add: prv_lt)
  ultimately show ?thesis unfolding rh_ok_d_def by simp
qed

lemma place_index:
  assumes shape: "table_shape bc mask'"
    and H: "data hv = H"
    and len: "length T = bc"
    and valid: "\<forall>x\<in>#slots T. x < length H"
    and rh: "rh_ok_d bc (dists bc H T)"
    and v: "v \<noteq> FM_EMPTY_IDX" "v < length H"
    and free: "size (slots T) < bc"
  shows "\<exists>T'. fm_place_index T mask' (H ! v) v hv = Some T' \<and> length T' = bc
                \<and> rh_ok_d bc (dists bc H T') \<and> slots T' = add_mset v (slots T)"
proof -
  have bc: "16 \<le> bc" "bc \<le> 2 ^ 32" using table_shape_bounds[OF shape] by simp_all
  define i where "i = ideal bc (H ! v)"
  have i: "i < bc" using bc by (simp add: i_def ideal_lt)
  from slots_empty_slot[of T] free len obtain e where e: "e < bc" "T ! e = FM_EMPTY_IDX" by auto
  have mu: "0 + cdist bc i e < bc" using bc by (simp add: cdist_lt)
  have "\<exists>T'. fm_place_index_loop T mask' hv i 0 v = Some T' \<and> length T' = bc
                \<and> rh_ok_d bc (dists bc H T') \<and> slots T' = add_mset v (slots T)"
    by (rule place_loop[OF shape H len valid rh i _ _ _ e refl mu])
       (use v i in \<open>simp_all add: i_def cdist_self\<close>)
  then show ?thesis
    by (simp add: fm_place_index_def shape_hash_and_mask[OF shape] i_def)
qed

lemma resize_loop:
  assumes shape: "table_shape bc mask'"
    and H: "data (hashes m) = H" "length H = n" "vec_length (keys m) = n"
    and n: "n < bc"
  shows "\<lbrakk>length T = bc; slots T = mset [0..<i]; rh_ok_d bc (dists bc H T); i \<le> n; n - i = k\<rbrakk>
    \<Longrightarrow> \<exists>T'. fm_resize_loop m mask' i T = Some T' \<and> length T' = bc
              \<and> rh_ok_d bc (dists bc H T') \<and> slots T' = mset [0..<n]"
proof (induction k arbitrary: i T)
  case 0
  then have "i = n" by simp
  then show ?case using 0 H by (subst fm_resize_loop.simps) simp
next
  case (Suc k)
  have bc: "16 \<le> bc" "bc \<le> 2 ^ 32" using table_shape_bounds[OF shape] by simp_all
  have i: "i < n" using Suc.prems by simp
  then have i32: "i < 2 ^ 32 - 1" using n bc by simp
  then have u: "u32 i = i" by (intro u32_id) simp
  have ine: "i \<noteq> FM_EMPTY_IDX" using i32 by (simp add: FM_EMPTY_IDX_def)
  have at: "fm_vec_at (hashes m) i = Some (H ! i)" using i H by (simp add: fm_vec_at_data)
  have valid: "\<forall>x\<in>#slots T. x < length H" using Suc.prems(2) H i by auto
  have free: "size (slots T) < bc" using Suc.prems(2) i n by simp
  from place_index[OF shape H(1) Suc.prems(1) valid Suc.prems(3) ine _ free] i H(2)
  obtain T' where T': "fm_place_index T mask' (H ! i) i (hashes m) = Some T'" "length T' = bc"
      "rh_ok_d bc (dists bc H T')" "slots T' = add_mset i (slots T)" by auto
  have sl: "slots T' = mset [0..<Suc i]" using T'(4) Suc.prems(2) by simp
  have step: "fm_resize_loop m mask' i T = fm_resize_loop m mask' (i + 1) T'"
    using i H at u T'(1) by (subst fm_resize_loop.simps) simp
  show ?case
    using Suc.IH[of T' "Suc i"] T'(2,3) sl Suc.prems i step by simp
qed

lemma fm_resize_ok:
  assumes shape: "table_shape bc (bc - 1)"
    and H: "vec_length (hashes m) = vec_length (keys m)"
    and n: "vec_length (keys m) < bc"
  shows "\<exists>T'. fm_resize m bc = Some (m\<lparr>buckets := T', bucket_count := bc, bucket_mask := bc - 1\<rparr>)
            \<and> length T' = bc
            \<and> rh_ok_d bc (dists bc (data (hashes m)) T')
            \<and> slots T' = mset [0..<vec_length (keys m)]"
proof -
  have bc: "16 \<le> bc" using table_shape_bounds[OF shape] by simp
  then have mask: "sz_sub bc 1 = bc - 1" by (simp add: sz_sub_id)
  have "\<exists>T'. fm_resize_loop m (bc - 1) 0 (replicate bc FM_EMPTY_IDX) = Some T' \<and> length T' = bc
              \<and> rh_ok_d bc (dists bc (data (hashes m)) T') \<and> slots T' = mset [0..<vec_length (keys m)]"
    by (rule resize_loop[OF shape refl _ refl n, where k = "vec_length (keys m)"])
       (use H in \<open>simp_all add: vec_length_def slots_replicate rh_ok_d_replicate\<close>)
  then obtain T' where T': "fm_resize_loop m (bc - 1) 0 (replicate bc FM_EMPTY_IDX) = Some T'"
    "length T' = bc" "rh_ok_d bc (dists bc (data (hashes m)) T')"
    "slots T' = mset [0..<vec_length (keys m)]" by blast
  have "fm_resize m bc = Some (m\<lparr>buckets := T', bucket_count := bc, bucket_mask := bc - 1\<rparr>)"
    unfolding fm_resize_def Let_def mask T'(1) by simp
  then show ?thesis using T'(2,3,4) by blast
qed

subsection \<open>Probing forward from an ideal slot\<close>

lemma fwd_cdist: "i < bc \<Longrightarrow> b < bc \<Longrightarrow> (i + cdist bc i b) mod bc = b"
  by (auto simp: cdist_alt mod_if)

lemma cdist_fwd: "i < bc \<Longrightarrow> j < bc \<Longrightarrow> cdist bc i ((i + j) mod bc) = j"
  by (auto simp: cdist_alt mod_if)

lemma prv_fwd: "0 < bc \<Longrightarrow> prv bc ((i + Suc j) mod bc) = (i + j) mod bc"
proof -
  assume bc: "0 < bc"
  have "prv bc ((i + Suc j) mod bc) = ((i + Suc j) mod bc + (bc - 1)) mod bc"
    using bc by (simp add: prv_def)
  also have "\<dots> = (i + Suc j + (bc - 1)) mod bc" by (simp add: mod_add_left_eq)
  also have "\<dots> = (i + j + bc) mod bc" using bc by simp
  finally show ?thesis by simp
qed

lemma nxt_fwd: "nxt bc ((i + j) mod bc) = (i + Suc j) mod bc"
  by (simp add: nxt_def mod_Suc_eq)

lemma rh_path:
  assumes rh: "rh_ok_d bc D" and i: "i < bc" and b: "b < bc"
    and Db: "D b = Some d" and d: "cdist bc i b = d"
    and j: "j \<le> d"
  shows "\<exists>d'. D ((i + j) mod bc) = Some d' \<and> j \<le> d'"
  using j
proof (induction rule: inc_induct)
  case base
  show ?case using fwd_cdist[OF i b] Db d by simp
next
  case (step n)
  then obtain d' where d': "D ((i + Suc n) mod bc) = Some d'" "Suc n \<le> d'" by blast
  then obtain x where x: "d' = Suc x" by (cases d') auto
  have "(i + Suc n) mod bc < bc" using i by simp
  with rh d'(1) x obtain d'' where d'': "D (prv bc ((i + Suc n) mod bc)) = Some d''" "x \<le> d''"
    unfolding rh_ok_d_def by blast
  have "prv bc ((i + Suc n) mod bc) = (i + n) mod bc" using prv_fwd[of bc i n] i by simp
  with d'' have "D ((i + n) mod bc) = Some d''" by simp
  moreover have "n \<le> d''" using d'(2) x d''(2) by simp
  ultimately show ?case by blast
qed

subsection \<open>Consequences of the invariant\<close>

lemma fm_hash_take: "fm_hash c (take len key) len = fm_hash c key len"
  by (simp add: fm_hash_def)

lemma fm_ok_shape: "fm_ok c m \<Longrightarrow> table_shape (bucket_count m) (bucket_mask m)"
  by (simp add: fm_ok_def)

lemma fm_ok_bc: "fm_ok c m \<Longrightarrow> 16 \<le> bucket_count m \<and> bucket_count m \<le> 2 ^ 32"
  using table_shape_bounds[OF fm_ok_shape] by blast

lemma fm_ok_len: "fm_ok c m \<Longrightarrow> length (buckets m) = bucket_count m"
  by (simp add: fm_ok_def)

lemma fm_ok_lengths:
  "fm_ok c m \<Longrightarrow> length (data (hashes m)) = length (data (keys m))
     \<and> length (data (values_v m)) = length (data (keys m))
     \<and> length (data (keys m)) < bucket_count m"
  by (simp add: fm_ok_def dense_ok_def vec_length_def)

lemma fm_ok_slot:
  assumes "fm_ok c m" "b < bucket_count m" "buckets m ! b \<noteq> FM_EMPTY_IDX"
  shows "buckets m ! b < length (data (keys m))"
proof -
  have "buckets m ! b \<in># slots (buckets m)" using assms slots_nth fm_ok_len by simp
  then show ?thesis using assms(1) by (simp add: fm_ok_def vec_length_def)
qed

lemma fm_ok_unique:
  assumes "fm_ok c m" "b1 < bucket_count m" "b2 < bucket_count m"
    "buckets m ! b1 = buckets m ! b2" "buckets m ! b1 \<noteq> FM_EMPTY_IDX"
  shows "b1 = b2"
proof -
  have "\<forall>x. count (slots (buckets m)) x \<le> 1"
    using assms(1) count_mset_upt unfolding fm_ok_def by metis
  then show ?thesis using slots_unique[of "buckets m" b1 b2] assms fm_ok_len by simp
qed

lemma fm_ok_slot_of:
  assumes "fm_ok c m" "p < length (data (keys m))"
  shows "\<exists>b<bucket_count m. buckets m ! b = p \<and> p \<noteq> FM_EMPTY_IDX"
proof -
  have "p \<in># slots (buckets m)" using assms by (simp add: fm_ok_def vec_length_def)
  then show ?thesis using slots_member[of p "buckets m"] fm_ok_len[OF assms(1)] by auto
qed

lemma fm_ok_free:
  assumes "fm_ok c m"
  shows "\<exists>e<bucket_count m. buckets m ! e = FM_EMPTY_IDX"
proof -
  have "size (slots (buckets m)) < length (buckets m)"
    using assms by (simp add: fm_ok_def vec_length_def)
  then show ?thesis using slots_empty_slot fm_ok_len[OF assms] by metis
qed

lemma fm_ok_key_take:
  "fm_ok c m \<Longrightarrow> x < length (data (keys m)) \<Longrightarrow>
     take (key_size m) (data (keys m) ! x) = data (keys m) ! x"
  by (simp add: fm_ok_def)

lemma fm_ok_hash:
  "fm_ok c m \<Longrightarrow> x < length (data (keys m)) \<Longrightarrow>
     data (hashes m) ! x = fm_hash c (data (keys m) ! x) (key_size m)"
  by (simp add: fm_ok_def dense_ok_def vec_length_def)

lemma fm_ok_rh:
  "fm_ok c m \<Longrightarrow> rh_ok_d (bucket_count m) (dists (bucket_count m) (data (hashes m)) (buckets m))"
  by (simp add: fm_ok_def)

text \<open>What a probing loop reads at an occupied slot.\<close>

lemma fm_ok_reads:
  assumes ok: "fm_ok c m" and b: "b < bucket_count m" and occ: "buckets m ! b \<noteq> FM_EMPTY_IDX"
  shows "fm_vec_at (hashes m) (buckets m ! b) = Some (data (hashes m) ! (buckets m ! b))"
    and "fm_vec_at (keys m) (buckets m ! b) = Some (data (keys m) ! (buckets m ! b))"
    and "probe_dist b (bucket_mask m) (hash_and_mask (data (hashes m) ! (buckets m ! b)) (bucket_mask m))
          = cdist (bucket_count m) (ideal (bucket_count m) (data (hashes m) ! (buckets m ! b))) b"
    and "dists (bucket_count m) (data (hashes m)) (buckets m) b
          = Some (cdist (bucket_count m) (ideal (bucket_count m) (data (hashes m) ! (buckets m ! b))) b)"
proof -
  have x: "buckets m ! b < length (data (keys m))" using fm_ok_slot[OF assms] .
  show "fm_vec_at (hashes m) (buckets m ! b) = Some (data (hashes m) ! (buckets m ! b))"
    using x fm_ok_lengths[OF ok] by (simp add: fm_vec_at_data)
  show "fm_vec_at (keys m) (buckets m ! b) = Some (data (keys m) ! (buckets m ! b))"
    using x by (simp add: fm_vec_at_data)
  have "ideal (bucket_count m) (data (hashes m) ! (buckets m ! b)) < bucket_count m"
    using fm_ok_bc[OF ok] by (simp add: ideal_lt)
  then show "probe_dist b (bucket_mask m) (hash_and_mask (data (hashes m) ! (buckets m ! b)) (bucket_mask m))
          = cdist (bucket_count m) (ideal (bucket_count m) (data (hashes m) ! (buckets m ! b))) b"
    using shape_probe_dist[OF fm_ok_shape[OF ok] b] shape_hash_and_mask[OF fm_ok_shape[OF ok]] by simp
  show "dists (bucket_count m) (data (hashes m)) (buckets m) b
          = Some (cdist (bucket_count m) (ideal (bucket_count m) (data (hashes m) ! (buckets m ! b))) b)"
    using occ by (simp add: dists_def)
qed

subsection \<open>One iteration of each probing loop\<close>

lemma put_probe_step:
  assumes ok: "fm_ok c m" and b: "b < bucket_count m"
  shows "fm_put_probe m key b dist =
     (if buckets m ! b = FM_EMPTY_IDX then Some None
      else if cdist (bucket_count m) (ideal (bucket_count m) (data (hashes m) ! (buckets m ! b))) b < dist
      then Some None
      else if data (keys m) ! (buckets m ! b) = take (key_size m) key
      then Some (Some (buckets m ! b))
      else fm_put_probe m key (nxt (bucket_count m) b) (sz (dist + 1)))"
proof (cases "buckets m ! b = FM_EMPTY_IDX")
  case True
  then show ?thesis using b fm_ok_len[OF ok] by (subst fm_put_probe.simps) simp
next
  case False
  note r = fm_ok_reads[OF ok b False]
  have k: "take (key_size m) (data (keys m) ! (buckets m ! b)) = data (keys m) ! (buckets m ! b)"
    using fm_ok_key_take[OF ok fm_ok_slot[OF ok b False]] .
  show ?thesis
    using False b fm_ok_len[OF ok] shape_next_bucket[OF fm_ok_shape[OF ok] b]
    by (subst fm_put_probe.simps) (simp add: r k)
qed

lemma get_loop_step:
  assumes ok: "fm_ok c m" and b: "b < bucket_count m"
  shows "fm_get_loop m key b dist =
     (if buckets m ! b = FM_EMPTY_IDX then Some None
      else if data (keys m) ! (buckets m ! b) = take (key_size m) key
      then Some (Some (buckets m ! b))
      else if cdist (bucket_count m) (ideal (bucket_count m) (data (hashes m) ! (buckets m ! b))) b < dist
      then Some None
      else fm_get_loop m key (nxt (bucket_count m) b) (sz (dist + 1)))"
proof (cases "buckets m ! b = FM_EMPTY_IDX")
  case True
  then show ?thesis using b fm_ok_len[OF ok] by (subst fm_get_loop.simps) simp
next
  case False
  note r = fm_ok_reads[OF ok b False]
  have k: "take (key_size m) (data (keys m) ! (buckets m ! b)) = data (keys m) ! (buckets m ! b)"
    using fm_ok_key_take[OF ok fm_ok_slot[OF ok b False]] .
  show ?thesis
    using False b fm_ok_len[OF ok] shape_next_bucket[OF fm_ok_shape[OF ok] b]
    by (subst fm_get_loop.simps) (simp add: r k)
qed

lemma erase_loop_step:
  assumes ok: "fm_ok c m" and b: "b < bucket_count m"
  shows "fm_erase_loop m key b dist =
     (if buckets m ! b = FM_EMPTY_IDX then Some (False, m)
      else if cdist (bucket_count m) (ideal (bucket_count m) (data (hashes m) ! (buckets m ! b))) b < dist
      then Some (False, m)
      else if data (keys m) ! (buckets m ! b) = take (key_size m) key
      then fm_erase_found m b (buckets m ! b)
      else fm_erase_loop m key (nxt (bucket_count m) b) (sz (dist + 1)))"
proof (cases "buckets m ! b = FM_EMPTY_IDX")
  case True
  then show ?thesis using b fm_ok_len[OF ok] by (subst fm_erase_loop.simps) simp
next
  case False
  note r = fm_ok_reads[OF ok b False]
  have k: "take (key_size m) (data (keys m) ! (buckets m ! b)) = data (keys m) ! (buckets m ! b)"
    using fm_ok_key_take[OF ok fm_ok_slot[OF ok b False]] .
  show ?thesis
    using False b fm_ok_len[OF ok] shape_next_bucket[OF fm_ok_shape[OF ok] b]
    by (subst fm_erase_loop.simps) (simp add: r k)
qed

subsection \<open>The probe reaches a stored key and stops on an absent one\<close>

lemma probe_path:
  assumes ok: "fm_ok c m" and p: "p < length (data (keys m))"
    and bs: "bs < bucket_count m" "buckets m ! bs = p"
    and j: "j \<le> cdist (bucket_count m) (ideal (bucket_count m) (data (hashes m) ! p)) bs"
  defines "b \<equiv> (ideal (bucket_count m) (data (hashes m) ! p) + j) mod bucket_count m"
  shows "b < bucket_count m"
    and "buckets m ! b \<noteq> FM_EMPTY_IDX"
    and "\<not> cdist (bucket_count m) (ideal (bucket_count m) (data (hashes m) ! (buckets m ! b))) b < j"
    and "j < cdist (bucket_count m) (ideal (bucket_count m) (data (hashes m) ! p)) bs
           \<Longrightarrow> data (keys m) ! (buckets m ! b) \<noteq> data (keys m) ! p"
    and "j = cdist (bucket_count m) (ideal (bucket_count m) (data (hashes m) ! p)) bs
           \<Longrightarrow> buckets m ! b = p"
proof -
  let ?bc = "bucket_count m" and ?H = "data (hashes m)" and ?T = "buckets m"
  let ?i = "ideal ?bc (?H ! p)"
  let ?d = "cdist ?bc ?i bs"
  have bc: "16 \<le> ?bc" using fm_ok_bc[OF ok] by simp
  have i: "?i < ?bc" using bc by (simp add: ideal_lt)
  have pne: "p \<noteq> FM_EMPTY_IDX" using fm_ok_slot_of[OF ok p] by blast
  show blt: "b < ?bc" using bc by (simp add: b_def)
  have Dbs: "dists ?bc ?H ?T bs = Some ?d" using bs pne by (simp add: dists_def)
  from rh_path[OF fm_ok_rh[OF ok] i bs(1) Dbs refl j]
  obtain d' where d': "dists ?bc ?H ?T b = Some d'" "j \<le> d'" unfolding b_def by blast
  show occ: "?T ! b \<noteq> FM_EMPTY_IDX" using d'(1) by (auto simp: dists_def split: if_splits)
  show "\<not> cdist ?bc (ideal ?bc (?H ! (?T ! b))) b < j"
    using d' occ by (simp add: dists_def)
  have dlt: "?d < ?bc" using bc by (simp add: cdist_lt)
  have cb: "cdist ?bc ?i b = j" unfolding b_def using cdist_fwd[OF i] j dlt by simp
  {
    assume "j < ?d"
    then have "b \<noteq> bs" using cb by auto
    then have "?T ! b \<noteq> p" using fm_ok_unique[OF ok blt bs(1)] occ bs(2) by auto
    moreover have "?T ! b < length (data (keys m))" using fm_ok_slot[OF ok blt occ] .
    moreover have "distinct (data (keys m))" using ok by (simp add: fm_ok_def)
    ultimately show "data (keys m) ! (?T ! b) \<noteq> data (keys m) ! p"
      using p by (simp add: nth_eq_iff_index_eq)
  }
  {
    assume "j = ?d"
    then have "b = bs" unfolding b_def using fwd_cdist[OF i bs(1)] by simp
    then show "?T ! b = p" using bs(2) by simp
  }
qed

lemma put_probe_found:
  assumes ok: "fm_ok c m" and p: "p < length (data (keys m))"
    and bs: "bs < bucket_count m" "buckets m ! bs = p"
    and key: "take (key_size m) key = data (keys m) ! p"
    and j: "j \<le> cdist (bucket_count m) (ideal (bucket_count m) (data (hashes m) ! p)) bs"
  shows "fm_put_probe m key ((ideal (bucket_count m) (data (hashes m) ! p) + j) mod bucket_count m) j
           = Some (Some p)"
  using j
proof (induction rule: inc_induct)
  case base
  note pp = probe_path[OF ok p bs order_refl]
  show ?case by (subst put_probe_step[OF ok pp(1)]) (use pp key in simp)
next
  case (step n)
  note pp = probe_path[OF ok p bs less_imp_le[OF step.hyps(2)]]
  have "cdist (bucket_count m) (ideal (bucket_count m) (data (hashes m) ! p)) bs < bucket_count m"
    using fm_ok_bc[OF ok] by (simp add: cdist_lt)
  then have "n + 1 < 2 ^ 64" using step.hyps(2) fm_ok_bc[OF ok] by simp
  then have s: "sz (n + 1) = Suc n" by (simp add: sz_id)
  show ?case
    by (subst put_probe_step[OF ok pp(1)]) (use pp key step.hyps(2) step.IH s in \<open>simp add: nxt_fwd\<close>)
qed

lemma get_loop_found:
  assumes ok: "fm_ok c m" and p: "p < length (data (keys m))"
    and bs: "bs < bucket_count m" "buckets m ! bs = p"
    and key: "take (key_size m) key = data (keys m) ! p"
    and j: "j \<le> cdist (bucket_count m) (ideal (bucket_count m) (data (hashes m) ! p)) bs"
  shows "fm_get_loop m key ((ideal (bucket_count m) (data (hashes m) ! p) + j) mod bucket_count m) j
           = Some (Some p)"
  using j
proof (induction rule: inc_induct)
  case base
  note pp = probe_path[OF ok p bs order_refl]
  show ?case by (subst get_loop_step[OF ok pp(1)]) (use pp key in simp)
next
  case (step n)
  note pp = probe_path[OF ok p bs less_imp_le[OF step.hyps(2)]]
  have "cdist (bucket_count m) (ideal (bucket_count m) (data (hashes m) ! p)) bs < bucket_count m"
    using fm_ok_bc[OF ok] by (simp add: cdist_lt)
  then have "n + 1 < 2 ^ 64" using step.hyps(2) fm_ok_bc[OF ok] by simp
  then have s: "sz (n + 1) = Suc n" by (simp add: sz_id)
  show ?case
    by (subst get_loop_step[OF ok pp(1)]) (use pp key step.hyps(2) step.IH s in \<open>simp add: nxt_fwd\<close>)
qed

lemma erase_loop_found:
  assumes ok: "fm_ok c m" and p: "p < length (data (keys m))"
    and bs: "bs < bucket_count m" "buckets m ! bs = p"
    and key: "take (key_size m) key = data (keys m) ! p"
    and j: "j \<le> cdist (bucket_count m) (ideal (bucket_count m) (data (hashes m) ! p)) bs"
  shows "fm_erase_loop m key ((ideal (bucket_count m) (data (hashes m) ! p) + j) mod bucket_count m) j
           = fm_erase_found m bs p"
  using j
proof (induction rule: inc_induct)
  case base
  note pp = probe_path[OF ok p bs order_refl]
  have i: "ideal (bucket_count m) (data (hashes m) ! p) < bucket_count m"
    using fm_ok_bc[OF ok] by (simp add: ideal_lt)
  show ?case
    by (subst erase_loop_step[OF ok pp(1)]) (use pp key fwd_cdist[OF i bs(1)] in simp)
next
  case (step n)
  note pp = probe_path[OF ok p bs less_imp_le[OF step.hyps(2)]]
  have "cdist (bucket_count m) (ideal (bucket_count m) (data (hashes m) ! p)) bs < bucket_count m"
    using fm_ok_bc[OF ok] by (simp add: cdist_lt)
  then have "n + 1 < 2 ^ 64" using step.hyps(2) fm_ok_bc[OF ok] by simp
  then have s: "sz (n + 1) = Suc n" by (simp add: sz_id)
  show ?case
    by (subst erase_loop_step[OF ok pp(1)]) (use pp key step.hyps(2) step.IH s in \<open>simp add: nxt_fwd\<close>)
qed

lemma put_probe_absent:
  assumes ok: "fm_ok c m" and key: "take (key_size m) key \<notin> set (data (keys m))"
    and e: "e < bucket_count m" "buckets m ! e = FM_EMPTY_IDX"
  shows "b < bucket_count m \<Longrightarrow> cdist (bucket_count m) b e = \<mu> \<Longrightarrow>
           fm_put_probe m key b dist = Some None"
proof (induction \<mu> arbitrary: b dist)
  case 0
  then have "b = e" using e by (simp add: cdist_eq_0)
  then show ?case using e by (subst put_probe_step[OF ok "0.prems"(1)]) simp
next
  case (Suc \<mu>)
  show ?case
  proof (cases "buckets m ! b = FM_EMPTY_IDX")
    case True
    then show ?thesis by (subst put_probe_step[OF ok Suc.prems(1)]) simp
  next
    case False
    then have bne: "b \<noteq> e" using e by auto
    have "data (keys m) ! (buckets m ! b) \<in> set (data (keys m))"
      using fm_ok_slot[OF ok Suc.prems(1) False] by simp
    then have k: "data (keys m) ! (buckets m ! b) \<noteq> take (key_size m) key" using key by auto
    have n: "nxt (bucket_count m) b < bucket_count m" using fm_ok_bc[OF ok] by (simp add: nxt_lt)
    have mu: "cdist (bucket_count m) (nxt (bucket_count m) b) e = \<mu>"
      using cdist_nxt_target[OF Suc.prems(1) e(1) bne] Suc.prems(2) by simp
    show ?thesis
      by (subst put_probe_step[OF ok Suc.prems(1)]) (use False k Suc.IH[OF n mu] in simp)
  qed
qed

lemma get_loop_absent:
  assumes ok: "fm_ok c m" and key: "take (key_size m) key \<notin> set (data (keys m))"
    and e: "e < bucket_count m" "buckets m ! e = FM_EMPTY_IDX"
  shows "b < bucket_count m \<Longrightarrow> cdist (bucket_count m) b e = \<mu> \<Longrightarrow>
           fm_get_loop m key b dist = Some None"
proof (induction \<mu> arbitrary: b dist)
  case 0
  then have "b = e" using e by (simp add: cdist_eq_0)
  then show ?case using e by (subst get_loop_step[OF ok "0.prems"(1)]) simp
next
  case (Suc \<mu>)
  show ?case
  proof (cases "buckets m ! b = FM_EMPTY_IDX")
    case True
    then show ?thesis by (subst get_loop_step[OF ok Suc.prems(1)]) simp
  next
    case False
    then have bne: "b \<noteq> e" using e by auto
    have "data (keys m) ! (buckets m ! b) \<in> set (data (keys m))"
      using fm_ok_slot[OF ok Suc.prems(1) False] by simp
    then have k: "data (keys m) ! (buckets m ! b) \<noteq> take (key_size m) key" using key by auto
    have n: "nxt (bucket_count m) b < bucket_count m" using fm_ok_bc[OF ok] by (simp add: nxt_lt)
    have mu: "cdist (bucket_count m) (nxt (bucket_count m) b) e = \<mu>"
      using cdist_nxt_target[OF Suc.prems(1) e(1) bne] Suc.prems(2) by simp
    show ?thesis
      by (subst get_loop_step[OF ok Suc.prems(1)]) (use False k Suc.IH[OF n mu] in simp)
  qed
qed

lemma erase_loop_absent:
  assumes ok: "fm_ok c m" and key: "take (key_size m) key \<notin> set (data (keys m))"
    and e: "e < bucket_count m" "buckets m ! e = FM_EMPTY_IDX"
  shows "b < bucket_count m \<Longrightarrow> cdist (bucket_count m) b e = \<mu> \<Longrightarrow>
           fm_erase_loop m key b dist = Some (False, m)"
proof (induction \<mu> arbitrary: b dist)
  case 0
  then have "b = e" using e by (simp add: cdist_eq_0)
  then show ?case using e by (subst erase_loop_step[OF ok "0.prems"(1)]) simp
next
  case (Suc \<mu>)
  show ?case
  proof (cases "buckets m ! b = FM_EMPTY_IDX")
    case True
    then show ?thesis by (subst erase_loop_step[OF ok Suc.prems(1)]) simp
  next
    case False
    then have bne: "b \<noteq> e" using e by auto
    have "data (keys m) ! (buckets m ! b) \<in> set (data (keys m))"
      using fm_ok_slot[OF ok Suc.prems(1) False] by simp
    then have k: "data (keys m) ! (buckets m ! b) \<noteq> take (key_size m) key" using key by auto
    have n: "nxt (bucket_count m) b < bucket_count m" using fm_ok_bc[OF ok] by (simp add: nxt_lt)
    have mu: "cdist (bucket_count m) (nxt (bucket_count m) b) e = \<mu>"
      using cdist_nxt_target[OF Suc.prems(1) e(1) bne] Suc.prems(2) by simp
    show ?thesis
      by (subst erase_loop_step[OF ok Suc.prems(1)]) (use False k Suc.IH[OF n mu] in simp)
  qed
qed

subsection \<open>Rounding to single precision\<close>

lemma binary32_le_bval24:
  assumes "- 24 \<le> expo a" "- 24 \<le> expo b"
  shows "binary32_le a b \<longleftrightarrow> bval24 a \<le> bval24 b"
proof (cases "expo a \<le> expo b")
  case True
  have "nat (expo b + 24) = nat (expo b - expo a) + nat (expo a + 24)" using True assms by simp
  then have "bval24 b = (mant b * 2 ^ nat (expo b - expo a)) * 2 ^ nat (expo a + 24)"
    by (simp add: bval24_def power_add)
  moreover have "bval24 a = mant a * 2 ^ nat (expo a + 24)" by (simp add: bval24_def)
  ultimately have "bval24 a \<le> bval24 b \<longleftrightarrow> mant a \<le> mant b * 2 ^ nat (expo b - expo a)"
    by (simp only: mult_le_cancel2) simp
  then show ?thesis using True by (simp add: binary32_le_def)
next
  case False
  have "nat (expo a + 24) = nat (expo a - expo b) + nat (expo b + 24)" using False assms by simp
  then have "bval24 a = (mant a * 2 ^ nat (expo a - expo b)) * 2 ^ nat (expo b + 24)"
    by (simp add: bval24_def power_add)
  moreover have "bval24 b = mant b * 2 ^ nat (expo b + 24)" by (simp add: bval24_def)
  ultimately have "bval24 a \<le> bval24 b \<longleftrightarrow> mant a * 2 ^ nat (expo a - expo b) \<le> mant b"
    by (simp only: mult_le_cancel2) simp
  then show ?thesis using False by (simp add: binary32_le_def)
qed

lemma bit_length_bounds: "0 < n \<Longrightarrow> 2 ^ (bit_length n - 1) \<le> n \<and> n < 2 ^ bit_length n"
proof (induction n rule: bit_length.induct)
  case (1 n)
  show ?case
  proof (cases "n div 2 = 0")
    case True
    then have "n = 1" using 1(2) by auto
    then show ?thesis by (simp add: bit_length.simps)
  next
    case False
    define l where "l = bit_length (n div 2)"
    have ih: "2 ^ (l - 1) \<le> n div 2" "n div 2 < 2 ^ l"
      using 1 False by (auto simp: l_def)
    have bl: "bit_length n = Suc l" using 1(2) unfolding l_def by (subst bit_length.simps) simp
    have pos: "0 < l" using False unfolding l_def by (subst bit_length.simps) simp
    then obtain l' where l': "l = Suc l'" by (cases l) auto
    have a: "(2::nat) ^ l \<le> n" using ih(1) l' by simp
    have b: "n < 2 ^ Suc l" using ih(2) by simp
    show ?thesis using a b bl by simp
  qed
qed

lemma round_small: "n < 2 ^ 24 \<Longrightarrow> round_binary32 n e = Binary32 n e"
  by (simp add: round_binary32_def)

lemma round_big:
  assumes n: "2 ^ 24 \<le> n" and e: "- 24 \<le> e"
  defines "s \<equiv> bit_length n - 24"
  shows "bit_length n = s + 24"
    and "1 \<le> s"
    and "2 ^ 23 \<le> n div 2 ^ s"
    and "n div 2 ^ s < 2 ^ 24"
    and "- 24 \<le> expo (round_binary32 n e)"
    and "(n div 2 ^ s) * 2 ^ s * 2 ^ nat (e + 24) \<le> bval24 (round_binary32 n e)"
    and "bval24 (round_binary32 n e) \<le> (n div 2 ^ s + 1) * 2 ^ s * 2 ^ nat (e + 24)"
proof -
  have pos: "0 < n" using n by (simp add: less_le_trans[of 0 "2 ^ 24"])
  note bb = bit_length_bounds[OF pos]
  have lt: "(2::nat) ^ 24 < 2 ^ bit_length n" using n bb by linarith
  have bl: "24 < bit_length n"
  proof (rule power_less_imp_less_exp)
    show "(1::nat) < 2" by simp
    show "(2::nat) ^ 24 < 2 ^ bit_length n" by (fact lt)
  qed
  then show s1: "1 \<le> s" by (simp add: s_def)
  show split: "bit_length n = s + 24" using bl by (simp add: s_def)
  have split2: "bit_length n - 1 = s + 23" using bl by (simp add: s_def)
  have lo: "2 ^ s * 2 ^ 23 \<le> n" using bb unfolding split2 by (simp only: power_add)
  have hi: "n < 2 ^ s * 2 ^ 24" using bb unfolding split by (simp only: power_add)
  show q_lo: "2 ^ 23 \<le> n div 2 ^ s"
    using lo by (simp add: less_eq_div_iff_mult_less_eq mult.commute)
  show q_hi: "n div 2 ^ s < 2 ^ 24"
    using hi by (simp add: div_less_iff_less_mult mult.commute)
  define q where "q = n div 2 ^ s"
  define q' where "q' = (if 2 ^ (s - 1) < n mod 2 ^ s \<or> (n mod 2 ^ s = 2 ^ (s - 1) \<and> odd q) then q + 1 else q)"
  have r: "round_binary32 n e = (if q' = 2 ^ 24 then Binary32 (2 ^ 23) (e + int s + 1) else Binary32 q' (e + int s))"
    using n by (simp add: round_binary32_def Let_def s_def[symmetric] q_def[symmetric] q'_def)
  show "- 24 \<le> expo (round_binary32 n e)" using e by (simp add: r)
  have 1: "nat (e + int s + 24) = s + nat (e + 24)" "nat (e + int s + 1 + 24) = Suc (s + nat (e + 24))"
    using e by simp_all
  have val: "bval24 (round_binary32 n e) = q' * 2 ^ s * 2 ^ nat (e + 24)"
  proof (cases "q' = 2 ^ 24")
    case True
    have "round_binary32 n e = Binary32 (2 ^ 23) (e + int s + 1)"
      using True r by presburger
    then have "bval24 (round_binary32 n e) = 2 ^ 23 * 2 ^ Suc (s + nat (e + 24))"
      by (simp only: bval24_def binary32.sel 1)
    also have "\<dots> = 2 ^ 24 * 2 ^ s * 2 ^ nat (e + 24)" by (simp add: power_add)
    finally show ?thesis using True by simp
  next
    case False
    have "round_binary32 n e = Binary32 q' (e + int s)"
      using False r by presburger
    then have "bval24 (round_binary32 n e) = q' * 2 ^ (s + nat (e + 24))"
      by (simp only: bval24_def binary32.sel 1)
    then show ?thesis by (simp add: power_add)
  qed
  have q'q: "q \<le> q'" "q' \<le> q + 1" by (simp_all add: q'_def)
  show "(n div 2 ^ s) * 2 ^ s * 2 ^ nat (e + 24) \<le> bval24 (round_binary32 n e)"
    unfolding val q_def[symmetric] using q'q by simp
  show "bval24 (round_binary32 n e) \<le> (n div 2 ^ s + 1) * 2 ^ s * 2 ^ nat (e + 24)"
    unfolding val q_def[symmetric] using q'q(2) by (intro mult_le_mono1) simp
qed

lemma mult_0_80_all:
  "\<forall>k\<in>set [4..<33]. binary32_mult (binary32_of_size (2 ^ k)) float_0_80
                         = Binary32 13421773 (int k - 24)"
  by (simp add: binary32_mult_def binary32_of_size_def round_binary32_def float_0_80_def
      bit_length.simps Let_def)

lemma mult_0_80:
  assumes "table_shape bc mask'"
  shows "- 24 \<le> expo (binary32_mult (binary32_of_size bc) float_0_80)"
    and "bval24 (binary32_mult (binary32_of_size bc) float_0_80) = 13421773 * bc"
proof -
  from assms obtain k where k: "4 \<le> k" "k \<le> 32" "bc = 2 ^ k" by (auto simp: table_shape_def)
  then have "k \<in> set [4..<33]" by (simp only: set_upt atLeastLessThan_iff) simp
  with mult_0_80_all have p: "binary32_mult (binary32_of_size bc) float_0_80
                         = Binary32 13421773 (int k - 24)" unfolding k(3) by blast
  show "- 24 \<le> expo (binary32_mult (binary32_of_size bc) float_0_80)" unfolding p by simp
  have "bval24 (Binary32 13421773 (int k - 24)) = 13421773 * 2 ^ k"
    by (simp add: bval24_def)
  then show "bval24 (binary32_mult (binary32_of_size bc) float_0_80) = 13421773 * bc"
    using p k(3) by simp
qed

lemma of_size_expo: "- 24 \<le> expo (binary32_of_size n)"
proof (cases "n < 2 ^ 24")
  case True
  then show ?thesis by (simp add: binary32_of_size_def round_small)
next
  case False
  then have "2 ^ 24 \<le> n" by simp
  from round_big(5)[OF this, of 0] show ?thesis by (simp add: binary32_of_size_def)
qed

lemma load_check_iff:
  assumes "table_shape (bucket_count m) (bucket_mask m)" "max_load_factor m = float_0_80"
  shows "fm_load_check m \<longleftrightarrow>
           13421773 * bucket_count m \<le> bval24 (binary32_of_size (vec_length (keys m)))"
  unfolding fm_load_check_def assms(2)
  using binary32_le_bval24[OF mult_0_80(1)[OF assms(1)] of_size_expo] mult_0_80(2)[OF assms(1)]
  by simp

text \<open>Rounding never crosses the threshold, which is itself a binary32 number.\<close>

lemma of_size_lower:
  assumes k: "bc = 2 ^ k" and le: "13421773 * bc \<le> n * 2 ^ 24"
  shows "13421773 * bc \<le> bval24 (binary32_of_size n)"
proof (cases "n < 2 ^ 24")
  case True
  then show ?thesis using le by (simp add: binary32_of_size_def round_small bval24_def)
next
  case False
  then have n: "2 ^ 24 \<le> n" by simp
  define s where "s = bit_length n - 24"
  note rb = round_big[OF n, of 0, folded s_def]
  have lb: "(n div 2 ^ s) * 2 ^ s * 2 ^ 24 \<le> bval24 (binary32_of_size n)"
    using rb(6) by (simp add: binary32_of_size_def)
  have "13421773 * 2 ^ k \<le> (n div 2 ^ s) * 2 ^ s * 2 ^ 24"
  proof (cases "k \<le> 23 + s")
    case True
    have "(13421773::nat) * 2 ^ k \<le> 2 ^ 24 * 2 ^ k" by simp
    also have "\<dots> \<le> 2 ^ 24 * 2 ^ (23 + s)" using True by simp
    also have "\<dots> = 2 ^ 23 * 2 ^ s * 2 ^ 24" by (simp add: power_add)
    also have "\<dots> \<le> (n div 2 ^ s) * 2 ^ s * 2 ^ 24" using rb(3) by simp
    finally show ?thesis .
  next
    case False
    define t where "t = k - (s + 24)"
    have t: "k = t + s + 24" using False by (simp add: t_def)
    have "13421773 * 2 ^ t * 2 ^ s * 2 ^ 24 \<le> n * 2 ^ 24"
      using le unfolding k t by (simp add: power_add mult.assoc)
    then have "13421773 * 2 ^ t * 2 ^ s \<le> n" by (simp add: ac_simps)
    then have "13421773 * 2 ^ t \<le> n div 2 ^ s"
      by (simp add: less_eq_div_iff_mult_less_eq)
    then have "13421773 * 2 ^ t * 2 ^ s * 2 ^ 24 \<le> (n div 2 ^ s) * 2 ^ s * 2 ^ 24" by simp
    then show ?thesis unfolding t by (simp add: power_add mult.assoc)
  qed
  then show ?thesis using lb k by simp
qed

lemma of_size_upper:
  assumes "n < 2 ^ 31"
  shows "bval24 (binary32_of_size n) \<le> 2 ^ 31 * 2 ^ 24"
proof (cases "n < 2 ^ 24")
  case True
  then show ?thesis using assms by (simp add: binary32_of_size_def round_small bval24_def)
next
  case False
  then have n: "2 ^ 24 \<le> n" by simp
  define s where "s = bit_length n - 24"
  note rb = round_big[OF n, of 0, folded s_def]
  have pos: "0 < n" using n by (simp add: less_le_trans[of 0 "2 ^ 24"])
  have "(2::nat) ^ (bit_length n - 1) < 2 ^ 31" using bit_length_bounds[OF pos] assms by linarith
  then have "bit_length n - 1 < 31" by (rule power_less_imp_less_exp[rotated]) simp
  then have s7: "s \<le> 7" using rb(1) by simp
  have "bval24 (binary32_of_size n) \<le> (n div 2 ^ s + 1) * 2 ^ s * 2 ^ 24"
    using rb(7) by (simp add: binary32_of_size_def)
  also have "\<dots> \<le> 2 ^ 24 * 2 ^ s * 2 ^ 24" using rb(4) by (intro mult_le_mono1) simp
  also have "\<dots> \<le> 2 ^ 24 * 2 ^ 7 * 2 ^ 24"
  proof -
    have "(2::nat) ^ s \<le> 2 ^ 7" using s7 by (intro power_increasing) auto
    then show ?thesis by (intro mult_le_mono1 mult_le_mono2)
  qed
  finally show ?thesis by simp
qed

subsection \<open>The load-factor check of put\<close>

lemma fm_ok_mlf: "fm_ok c m \<Longrightarrow> max_load_factor m = float_0_80"
  by (simp add: fm_ok_def)

lemma no_resize_below:
  assumes ok: "fm_ok c m" and nc: "\<not> fm_load_check m"
  shows "vec_length (keys m) * 2 ^ 24 < 13421773 * bucket_count m"
proof (rule ccontr)
  assume "\<not> ?thesis"
  then have le: "13421773 * bucket_count m \<le> vec_length (keys m) * 2 ^ 24" by simp
  from fm_ok_shape[OF ok] obtain k where "bucket_count m = 2 ^ k" by (auto simp: table_shape_def)
  from of_size_lower[OF this le] nc show False
    using load_check_iff[OF fm_ok_shape[OF ok] fm_ok_mlf[OF ok]] by simp
qed

lemma no_resize_free:
  assumes ok: "fm_ok c m" and nc: "\<not> fm_load_check m"
  shows "vec_length (keys m) + 1 < bucket_count m"
  using no_resize_below[OF assms] fm_ok_bc[OF ok] by simp

lemma resize_small:
  assumes ok: "fm_ok c m" and ch: "fm_load_check m" and n: "vec_length (keys m) < 2 ^ 31"
  shows "table_shape (2 * bucket_count m) (2 * bucket_count m - 1)"
proof -
  from fm_ok_shape[OF ok] obtain k where k: "4 \<le> k" "k \<le> 32" "bucket_count m = 2 ^ k"
    by (auto simp: table_shape_def)
  have "13421773 * bucket_count m \<le> bval24 (binary32_of_size (vec_length (keys m)))"
    using ch load_check_iff[OF fm_ok_shape[OF ok] fm_ok_mlf[OF ok]] by simp
  also have "\<dots> \<le> 2 ^ 31 * 2 ^ 24" by (rule of_size_upper[OF n])
  finally have "13421773 * (2::nat) ^ k \<le> 2 ^ 31 * 2 ^ 24" unfolding k(3) .
  then have "(2::nat) ^ k < 2 ^ 32" by simp
  then have "k < 32" by (rule power_less_imp_less_exp[rotated]) simp
  then have "4 \<le> Suc k \<and> Suc k \<le> 32 \<and> 2 * bucket_count m = 2 ^ Suc k"
    using k by simp
  then show ?thesis unfolding table_shape_def by blast
qed

lemma put_resize_step:
  assumes ok: "fm_ok c m" and n: "vec_length (keys m) < 2 ^ 31"
  shows "\<exists>m1. (if fm_load_check m then fm_resize m (sz (bucket_count m * 2)) else Some m) = Some m1
            \<and> fm_ok c m1
            \<and> keys m1 = keys m \<and> values_v m1 = values_v m \<and> hashes m1 = hashes m
            \<and> key_size m1 = key_size m \<and> val_size m1 = val_size m
            \<and> bucket_count m1 = (if fm_load_check m then 2 * bucket_count m else bucket_count m)
            \<and> (\<not> fm_load_check m \<longrightarrow> m1 = m)
            \<and> vec_length (keys m) + 1 < bucket_count m1"
proof (cases "fm_load_check m")
  case False
  then show ?thesis using ok no_resize_free[OF ok False] by simp
next
  case True
  let ?bc = "2 * bucket_count m"
  have sh: "table_shape ?bc (?bc - 1)" using resize_small[OF ok True n] .
  have s: "sz (bucket_count m * 2) = ?bc"
    using fm_ok_bc[OF ok] by (simp add: sz_id)
  have len: "vec_length (hashes m) = vec_length (keys m)" using ok by (simp add: fm_ok_def dense_ok_def)
  have lt: "vec_length (keys m) < ?bc" using fm_ok_lengths[OF ok] by (simp add: vec_length_def)
  from fm_resize_ok[OF sh len lt] obtain T' where
    T': "fm_resize m ?bc = Some (m\<lparr>buckets := T', bucket_count := ?bc, bucket_mask := ?bc - 1\<rparr>)"
      "length T' = ?bc" "rh_ok_d ?bc (dists ?bc (data (hashes m)) T')"
      "slots T' = mset [0..<vec_length (keys m)]" by blast
  let ?m1 = "m\<lparr>buckets := T', bucket_count := ?bc, bucket_mask := ?bc - 1\<rparr>"
  have "fm_ok c ?m1"
    using ok sh T'(2,3,4) lt unfolding fm_ok_def dense_ok_def by simp
  moreover have "vec_length (keys m) + 1 < ?bc" using fm_ok_lengths[OF ok] by (simp add: vec_length_def)
  ultimately show ?thesis using True T'(1) s by simp
qed

lemma rh_ok_d_cong:
  assumes "\<forall>b<bc. D b = D' b" "rh_ok_d bc D"
  shows "rh_ok_d bc D'"
  unfolding rh_ok_d_def
proof (intro allI impI)
  fix b d assume b: "b < bc" and "D' b = Some (Suc d)"
  then have "D b = Some (Suc d)" using assms(1) by simp
  with assms(2) b obtain d' where "D (prv bc b) = Some d'" "d \<le> d'" unfolding rh_ok_d_def by blast
  moreover have "prv bc b < bc" using b by (simp add: prv_lt)
  ultimately show "\<exists>d'. D' (prv bc b) = Some d' \<and> d \<le> d'" using assms(1) by auto
qed

lemma dists_cong:
  assumes "\<forall>b<bc. T ! b \<noteq> FM_EMPTY_IDX \<longrightarrow> H ! (T ! b) = H' ! (T ! b)"
  shows "\<forall>b<bc. dists bc H T b = dists bc H' T b"
  using assms by (simp add: dists_def)

subsection \<open>Put\<close>

lemma data_push [simp]: "data (fm_vec_push vec item) = data vec @ [item]"
  by (simp add: fm_vec_push_def Let_def fm_vec_grow_def)

lemma stride_push [simp]: "stride (fm_vec_push vec item) = stride vec"
  by (simp add: fm_vec_push_def Let_def fm_vec_grow_def)

lemma vec_length_push [simp]: "vec_length (fm_vec_push vec item) = Suc (vec_length vec)"
  by (simp add: vec_length_def)

lemma fm_ok_key_hash:
  assumes "fm_ok c m" "p < length (data (keys m))" "take (key_size m) key = data (keys m) ! p"
  shows "fm_hash c key (key_size m) = data (hashes m) ! p"
  using fm_ok_hash[OF assms(1,2)] fm_hash_take[of c "key_size m" key] assms(3) by simp

lemma fm_put_present:
  assumes ok: "fm_ok c m" and n: "vec_length (keys m) < 2 ^ 31"
    and key: "key_size m \<le> length key" and val: "val_size m \<le> length value"
    and p: "p < length (data (keys m))" "take (key_size m) key = data (keys m) ! p"
  shows "\<exists>m1. (if fm_load_check m then fm_resize m (sz (bucket_count m * 2)) else Some m) = Some m1
           \<and> fm_ok c m1 \<and> keys m1 = keys m \<and> values_v m1 = values_v m \<and> hashes m1 = hashes m
           \<and> bucket_count m1 = (if fm_load_check m then 2 * bucket_count m else bucket_count m)
           \<and> (\<not> fm_load_check m \<longrightarrow> m1 = m)
           \<and> fm_put c m key value =
               Some (m1\<lparr>values_v := (values_v m)\<lparr>data :=
                          (data (values_v m))[p := take (val_size m) value]\<rparr>\<rparr>)
           \<and> fm_ok c (m1\<lparr>values_v := (values_v m)\<lparr>data :=
                          (data (values_v m))[p := take (val_size m) value]\<rparr>\<rparr>)"
proof -
  from put_resize_step[OF ok n] obtain m1 where
    m1: "(if fm_load_check m then fm_resize m (sz (bucket_count m * 2)) else Some m) = Some m1"
      "fm_ok c m1" "keys m1 = keys m" "values_v m1 = values_v m" "hashes m1 = hashes m"
      "key_size m1 = key_size m" "val_size m1 = val_size m"
      "bucket_count m1 = (if fm_load_check m then 2 * bucket_count m else bucket_count m)"
      "\<not> fm_load_check m \<longrightarrow> m1 = m" by blast
  let ?bc = "bucket_count m1"
  have p1: "p < length (data (keys m1))" "take (key_size m1) key = data (keys m1) ! p"
    using p m1 by simp_all
  from fm_ok_slot_of[OF m1(2) p1(1)] obtain bs where bs: "bs < ?bc" "buckets m1 ! bs = p" by blast
  have h: "fm_hash c key (key_size m1) = data (hashes m1) ! p"
    using fm_ok_key_hash[OF m1(2) p1] .
  have i: "ideal ?bc (data (hashes m1) ! p) < ?bc" using fm_ok_bc[OF m1(2)] by (simp add: ideal_lt)
  have "fm_put_probe m1 key ((ideal ?bc (data (hashes m1) ! p) + 0) mod ?bc) 0 = Some (Some p)"
    by (rule put_probe_found[OF m1(2) p1(1) bs p1(2)]) simp
  then have probe: "fm_put_probe m1 key (hash_and_mask (fm_hash c key (key_size m1)) (bucket_mask m1)) 0
                      = Some (Some p)"
    using i by (simp add: h shape_hash_and_mask[OF fm_ok_shape[OF m1(2)]])
  have pv: "p < length (data (values_v m))" using fm_ok_lengths[OF ok] p by simp
  then have at: "fm_vec_at (values_v m1) p = Some (data (values_v m) ! p)"
    using m1 by (simp add: fm_vec_at_data)
  have "length (data (values_v m) ! p) = val_size m" using ok pv by (simp add: fm_ok_def)
  then have mc: "memcpy_bytes (data (values_v m) ! p) value (val_size m1) = take (val_size m) value"
    using m1 by (simp add: memcpy_bytes_def)
  let ?m' = "m1\<lparr>values_v := (values_v m)\<lparr>data := (data (values_v m))[p := take (val_size m) value]\<rparr>\<rparr>"
  have put: "fm_put c m key value = Some ?m'"
    using key val m1(1,4,6,7) probe at mc by (simp add: fm_put_def Let_def)
  have "\<forall>v\<in>set ((data (values_v m))[p := take (val_size m) value]). length v = val_size m"
  proof
    fix v assume "v \<in> set ((data (values_v m))[p := take (val_size m) value])"
    then have "v = take (val_size m) value \<or> v \<in> set (data (values_v m))"
      using set_update_subset_insert by fastforce
    then show "length v = val_size m" using ok val by (auto simp: fm_ok_def)
  qed
  then have "fm_ok c ?m'"
    using m1(2) m1(3-7) unfolding fm_ok_def dense_ok_def vec_length_def by simp
  then show ?thesis using m1 put by blast
qed

lemma fm_put_absent:
  assumes ok: "fm_ok c m" and n: "vec_length (keys m) < 2 ^ 31"
    and key: "key_size m \<le> length key" and val: "val_size m \<le> length value"
    and absent: "take (key_size m) key \<notin> set (data (keys m))"
  shows "\<exists>m'. fm_put c m key value = Some m' \<and> fm_ok c m'
           \<and> data (keys m') = data (keys m) @ [take (key_size m) key]
           \<and> data (values_v m') = data (values_v m) @ [take (val_size m) value]
           \<and> data (hashes m') = data (hashes m) @ [fm_hash c key (key_size m)]
           \<and> key_size m' = key_size m \<and> val_size m' = val_size m
           \<and> bucket_count m' = (if fm_load_check m then 2 * bucket_count m else bucket_count m)"
proof -
  from put_resize_step[OF ok n] obtain m1 where
    m1: "(if fm_load_check m then fm_resize m (sz (bucket_count m * 2)) else Some m) = Some m1"
      "fm_ok c m1" "keys m1 = keys m" "values_v m1 = values_v m" "hashes m1 = hashes m"
      "key_size m1 = key_size m" "val_size m1 = val_size m"
      "bucket_count m1 = (if fm_load_check m then 2 * bucket_count m else bucket_count m)"
      "vec_length (keys m) + 1 < bucket_count m1" by blast
  let ?bc = "bucket_count m1" and ?T = "buckets m1"
  let ?K = "data (keys m)" and ?V = "data (values_v m)" and ?H = "data (hashes m)"
  let ?n = "length ?K"
  define hash where "hash = fm_hash c key (key_size m)"
  let ?H' = "?H @ [hash]"
  have bc: "16 \<le> ?bc" "?bc \<le> 2 ^ 32" using fm_ok_bc[OF m1(2)] by simp_all
  have lens: "length ?H = ?n" "length ?V = ?n" using fm_ok_lengths[OF ok] by simp_all
  have absent1: "take (key_size m1) key \<notin> set (data (keys m1))" using absent m1 by simp
  from fm_ok_free[OF m1(2)] obtain e where e: "e < ?bc" "?T ! e = FM_EMPTY_IDX" by blast
  have i: "ideal ?bc (fm_hash c key (key_size m1)) < ?bc" using bc by (simp add: ideal_lt)
  have probe: "fm_put_probe m1 key (hash_and_mask (fm_hash c key (key_size m1)) (bucket_mask m1)) 0
                 = Some None"
    unfolding shape_hash_and_mask[OF fm_ok_shape[OF m1(2)]]
    by (rule put_probe_absent[OF m1(2) absent1 e i refl])
  have n32: "?n < 2 ^ 32 - 1" using n by (simp add: vec_length_def)
  then have u: "u32 (vec_length (keys m1)) = ?n" using m1(3) by (simp add: u32_id vec_length_def)
  have nne: "?n \<noteq> FM_EMPTY_IDX" using n32 by (simp add: FM_EMPTY_IDX_def)
  have sl: "slots ?T = mset [0..<?n]" using m1(2,3) by (simp add: fm_ok_def vec_length_def)
  have valid: "\<forall>x\<in>#slots ?T. x < length ?H'" unfolding sl using lens by auto
  have same: "\<forall>b<?bc. ?T ! b \<noteq> FM_EMPTY_IDX \<longrightarrow> ?H ! (?T ! b) = ?H' ! (?T ! b)"
  proof (intro allI impI)
    fix b assume "b < ?bc" "?T ! b \<noteq> FM_EMPTY_IDX"
    then have "?T ! b < ?n" using fm_ok_slot[OF m1(2)] m1(3) by simp
    then show "?H ! (?T ! b) = ?H' ! (?T ! b)" using lens by (simp add: nth_append)
  qed
  have rh: "rh_ok_d ?bc (dists ?bc ?H' ?T)"
    using rh_ok_d_cong[OF dists_cong[OF same]] fm_ok_rh[OF m1(2)] m1(5) by simp
  have free: "size (slots ?T) < ?bc" unfolding sl using m1(9) by (simp add: vec_length_def)
  have hv: "data (fm_vec_push (hashes m1) hash) = ?H'" using m1(5) by simp
  have hn: "?H' ! ?n = hash" using lens(1) nth_append_length[of ?H hash] by simp
  have nlt: "?n < length ?H'" using lens by simp
  from place_index[OF fm_ok_shape[OF m1(2)] hv fm_ok_len[OF m1(2)] valid rh nne nlt free]
  obtain T' where T': "fm_place_index ?T (bucket_mask m1) hash ?n (fm_vec_push (hashes m1) hash) = Some T'"
      "length T' = ?bc" "rh_ok_d ?bc (dists ?bc ?H' T')" "slots T' = add_mset ?n (slots ?T)"
    unfolding hn by auto
  let ?m' = "m1\<lparr>keys := fm_vec_push (keys m1) (take (stride (keys m1)) key),
                values_v := fm_vec_push (values_v m1) (take (stride (values_v m1)) value),
                hashes := fm_vec_push (hashes m1) hash, buckets := T'\<rparr>"
  have put: "fm_put c m key value = Some ?m'"
    using key val m1(1,6,7) probe u T'(1) by (simp add: fm_put_def Let_def hash_def)
  have st: "stride (keys m1) = key_size m" "stride (values_v m1) = val_size m"
    using m1(2,6,7) by (simp_all add: fm_ok_def)
  have sl': "slots T' = mset [0..<Suc ?n]" using T'(4) sl by simp
  have hash_ok: "\<forall>i<Suc ?n. ?H' ! i = fm_hash c ((?K @ [take (key_size m) key]) ! i) (key_size m)"
  proof (intro allI impI)
    fix i assume "i < Suc ?n"
    then consider "i < ?n" | "i = ?n" by linarith
    then show "?H' ! i = fm_hash c ((?K @ [take (key_size m) key]) ! i) (key_size m)"
    proof cases
      case 1
      then show ?thesis using fm_ok_hash[OF ok 1] lens by (simp add: nth_append)
    next
      case 2
      have "?H' ! i = hash" using hn 2 by simp
      moreover have "(?K @ [take (key_size m) key]) ! i = take (key_size m) key" using 2 by simp
      ultimately show ?thesis by (simp only: hash_def fm_hash_take)
    qed
  qed
  have "fm_ok c ?m'"
    using m1(2) m1(3-7) m1(9) T'(2,3) sl' hash_ok st key val absent lens
    unfolding fm_ok_def dense_ok_def vec_length_def by (simp add: )
  then show ?thesis using put m1 st by (auto simp: hash_def)
qed

subsection \<open>Get\<close>

lemma fm_get_present:
  assumes ok: "fm_ok c m" and key: "key_size m \<le> length key"
    and p: "p < length (data (keys m))" "take (key_size m) key = data (keys m) ! p"
  shows "fm_get c m key = Some (Some p)"
proof -
  let ?bc = "bucket_count m"
  from fm_ok_slot_of[OF ok p(1)] obtain bs where bs: "bs < ?bc" "buckets m ! bs = p" by blast
  have h: "fm_hash c key (key_size m) = data (hashes m) ! p" using fm_ok_key_hash[OF ok p] .
  have i: "ideal ?bc (data (hashes m) ! p) < ?bc" using fm_ok_bc[OF ok] by (simp add: ideal_lt)
  have "fm_get_loop m key ((ideal ?bc (data (hashes m) ! p) + 0) mod ?bc) 0 = Some (Some p)"
    by (rule get_loop_found[OF ok p(1) bs p(2)]) simp
  then show ?thesis
    using i key by (simp add: fm_get_def h shape_hash_and_mask[OF fm_ok_shape[OF ok]])
qed

lemma fm_get_absent:
  assumes ok: "fm_ok c m" and key: "key_size m \<le> length key"
    and absent: "take (key_size m) key \<notin> set (data (keys m))"
  shows "fm_get c m key = Some None"
proof -
  let ?bc = "bucket_count m"
  from fm_ok_free[OF ok] obtain e where e: "e < ?bc" "buckets m ! e = FM_EMPTY_IDX" by blast
  have i: "ideal ?bc (fm_hash c key (key_size m)) < ?bc" using fm_ok_bc[OF ok] by (simp add: ideal_lt)
  have "fm_get_loop m key (ideal ?bc (fm_hash c key (key_size m))) 0 = Some None"
    by (rule get_loop_absent[OF ok absent e i refl])
  then show ?thesis
    using key by (simp add: fm_get_def shape_hash_and_mask[OF fm_ok_shape[OF ok]])
qed

subsection \<open>Init\<close>

lemma table_shape_init: "table_shape 16 15"
  unfolding table_shape_def by (rule exI[of _ 4]) simp

lemma fm_ok_init: "fm_ok c (fm_init ks vs)"
  unfolding fm_ok_def dense_ok_def
  by (simp add: fm_init_def fm_vec_init_def vec_length_def table_shape_init slots_replicate
      rh_ok_d_replicate)

subsection \<open>Swap-and-pop on a list\<close>

lemma length_swap_remove [simp]: "length (swap_remove p xs) = length xs - 1"
  by (simp add: swap_remove_def)

lemma nth_swap_remove:
  assumes "q < length xs - 1"
  shows "swap_remove p xs ! q = (if q = p then xs ! (length xs - 1) else xs ! q)"
proof -
  have ne: "xs \<noteq> []" using assms by auto
  have "swap_remove p xs ! q = (xs[p := last xs]) ! q"
    using assms by (simp add: swap_remove_def nth_butlast)
  then show ?thesis using assms ne by (simp add: nth_list_update last_conv_nth)
qed

lemma set_swap_remove:
  assumes "distinct xs" "p < length xs"
  shows "set (swap_remove p xs) = set xs - {xs ! p}"
proof (rule set_eqI)
  fix y
  let ?n = "length xs"
  have ne: "xs \<noteq> []" using assms by auto
  show "y \<in> set (swap_remove p xs) \<longleftrightarrow> y \<in> set xs - {xs ! p}"
  proof
    assume "y \<in> set (swap_remove p xs)"
    then obtain q where q: "q < ?n - 1" "swap_remove p xs ! q = y"
      by (auto simp: in_set_conv_nth)
    show "y \<in> set xs - {xs ! p}"
    proof (cases "q = p")
      case True
      then have "y = xs ! (?n - 1)" using q nth_swap_remove[OF q(1), of p] by simp
      moreover have "xs ! (?n - 1) \<noteq> xs ! p"
        using assms q True by (simp add: nth_eq_iff_index_eq)
      ultimately show ?thesis using ne by (simp)
    next
      case False
      then have "y = xs ! q" using q nth_swap_remove[OF q(1), of p] by simp
      moreover have "xs ! q \<noteq> xs ! p"
        using assms q False by (simp add: nth_eq_iff_index_eq)
      ultimately show ?thesis using q by simp
    qed
  next
    assume "y \<in> set xs - {xs ! p}"
    then obtain q where q: "q < ?n" "xs ! q = y" "y \<noteq> xs ! p" by (auto simp: in_set_conv_nth)
    then have qp: "q \<noteq> p" by auto
    show "y \<in> set (swap_remove p xs)"
    proof (cases "q = ?n - 1")
      case True
      then have "p < ?n - 1" using assms(2) qp by simp
      then have "swap_remove p xs ! p = y" using nth_swap_remove[of p xs p] True q by simp
      then show ?thesis using \<open>p < ?n - 1\<close> by (metis length_swap_remove nth_mem)
    next
      case False
      then have "q < ?n - 1" using q by simp
      then have "swap_remove p xs ! q = y" using nth_swap_remove[of q xs p] qp q by simp
      then show ?thesis using \<open>q < ?n - 1\<close> by (metis length_swap_remove nth_mem)
    qed
  qed
qed

lemma distinct_swap_remove:
  assumes "distinct xs" "p < length xs"
  shows "distinct (swap_remove p xs)"
proof -
  let ?n = "length xs"
  have "\<forall>i<?n - 1. \<forall>j<?n - 1. i \<noteq> j \<longrightarrow> swap_remove p xs ! i \<noteq> swap_remove p xs ! j"
  proof (intro allI impI)
    fix i j assume ij: "i < ?n - 1" "j < ?n - 1" "i \<noteq> j"
    have "(if i = p then ?n - 1 else i) \<noteq> (if j = p then ?n - 1 else j)" using ij by auto
    moreover have "(if i = p then ?n - 1 else i) < ?n" "(if j = p then ?n - 1 else j) < ?n"
      using ij by auto
    ultimately have "xs ! (if i = p then ?n - 1 else i) \<noteq> xs ! (if j = p then ?n - 1 else j)"
      using assms(1) by (simp add: nth_eq_iff_index_eq)
    then show "swap_remove p xs ! i \<noteq> swap_remove p xs ! j"
      using nth_swap_remove[OF ij(1), of p] nth_swap_remove[OF ij(2), of p] by (simp split: if_splits)
  qed
  then show ?thesis by (simp add: distinct_conv_nth)
qed

subsection \<open>Repointing the bucket of the moved entry\<close>

lemma update_bucket_loop:
  assumes shape: "table_shape (bucket_count m) (bucket_mask m)"
    and len: "length (buckets m) = bucket_count m"
    and bl: "bl < bucket_count m" "buckets m ! bl = old"
    and uniq: "\<forall>b<bucket_count m. buckets m ! b = old \<longrightarrow> b = bl"
  shows "b < bucket_count m \<Longrightarrow> cdist (bucket_count m) b bl = \<mu> \<Longrightarrow>
           fm_update_bucket_loop m old new b = Some (m\<lparr>buckets := (buckets m)[bl := new]\<rparr>)"
proof (induction \<mu> arbitrary: b)
  case 0
  then have "b = bl" using bl by (simp add: cdist_eq_0)
  then show ?case using bl len by (subst fm_update_bucket_loop.simps) simp
next
  case (Suc \<mu>)
  have bc: "16 \<le> bucket_count m" using table_shape_bounds[OF shape] by simp
  have bne: "b \<noteq> bl" using Suc.prems bl by (auto simp: cdist_self)
  then have ne: "buckets m ! b \<noteq> old" using uniq Suc.prems(1) by auto
  have n: "nxt (bucket_count m) b < bucket_count m" using bc by (simp add: nxt_lt)
  have mu: "cdist (bucket_count m) (nxt (bucket_count m) b) bl = \<mu>"
    using cdist_nxt_target[OF Suc.prems(1) bl(1) bne] Suc.prems(2) by simp
  show ?case
    using Suc.prems(1) len ne shape_next_bucket[OF shape Suc.prems(1)] Suc.IH[OF n mu]
    by (subst fm_update_bucket_loop.simps) simp
qed

subsection \<open>Robin Hood order when a slot is emptied\<close>

lemma rh_ok_d_clear:
  assumes rh: "rh_ok_d bc D" and b: "b < bc"
    and nx: "\<forall>d. D (nxt bc b) \<noteq> Some (Suc d)"
  shows "rh_ok_d bc (D(b := None))"
  unfolding rh_ok_d_def
proof (intro allI impI)
  fix b' d assume b': "b' < bc" and d: "(D(b := None)) b' = Some (Suc d)"
  then have ne: "b' \<noteq> b" and Db': "D b' = Some (Suc d)" by (auto split: if_splits)
  have "prv bc b' \<noteq> b"
  proof
    assume "prv bc b' = b"
    then have "b' = nxt bc b" using prv_eq_iff[OF b b'] by simp
    then show False using nx Db' by simp
  qed
  moreover from rh b' Db' obtain d' where "D (prv bc b') = Some d'" "d \<le> d'"
    unfolding rh_ok_d_def by blast
  ultimately show "\<exists>d'. (D(b := None)) (prv bc b') = Some d' \<and> d \<le> d'" by simp
qed

subsection \<open>Backward-shift repair\<close>

lemma cdist_before_hole_init:
  "2 \<le> bc \<Longrightarrow> e < bc \<Longrightarrow> hole < bc \<Longrightarrow> e \<noteq> hole \<Longrightarrow>
     cdist bc (nxt bc hole) e < cdist bc (nxt bc hole) hole"
  by (auto simp: cdist_alt nxt_alt nxt_lt split: if_splits)

lemma cdist_before_hole_step:
  assumes "b < bc" "e < bc" "hole < bc" "b \<noteq> e" "cdist bc b e < cdist bc b hole"
  shows "cdist bc (nxt bc b) e < cdist bc (nxt bc b) hole"
proof -
  have "b \<noteq> hole" using assms by (auto simp: cdist_self)
  then show ?thesis
    using cdist_nxt_target[OF assms(1,2,4)] cdist_nxt_target[OF assms(1,3)] assms(5) by simp
qed

text \<open>Once an entry has stayed in place, the scan moves nothing more and ends at a free slot.\<close>

lemma backshift_scan:
  assumes shape: "table_shape (bucket_count m) (bucket_mask m)"
    and len: "length (buckets m) = bucket_count m"
    and valid: "\<forall>x\<in>#slots ((buckets m)[hole := FM_EMPTY_IDX]). x < length (data (hashes m))"
    and hole: "hole < bucket_count m"
    and rh: "rh_ok_d (bucket_count m)
               (dists (bucket_count m) (data (hashes m)) ((buckets m)[hole := FM_EMPTY_IDX]))"
    and e: "e < bucket_count m" "buckets m ! e = FM_EMPTY_IDX"
  shows "next_idx < bucket_count m \<Longrightarrow> cdist (bucket_count m) next_idx e = \<mu> \<Longrightarrow>
         \<mu> < cdist (bucket_count m) next_idx hole \<Longrightarrow>
           fm_backshift_loop m hole next_idx = Some (m\<lparr>buckets := (buckets m)[hole := FM_EMPTY_IDX]\<rparr>)"
proof (induction \<mu> arbitrary: next_idx)
  case 0
  then have "next_idx = e" using e by (simp add: cdist_eq_0)
  then show ?case using e hole len by (subst fm_backshift_loop.simps) simp
next
  case (Suc \<mu>)
  let ?bc = "bucket_count m" and ?T = "buckets m" and ?H = "data (hashes m)"
  let ?Ts = "?T[hole := FM_EMPTY_IDX]"
  have bc: "16 \<le> ?bc" using table_shape_bounds[OF shape] by simp
  have nne: "next_idx \<noteq> e" using Suc.prems e by (auto simp: cdist_self)
  have nnh: "next_idx \<noteq> hole" using Suc.prems by (auto simp: cdist_self)
  show ?case
  proof (cases "?T ! next_idx = FM_EMPTY_IDX")
    case True
    then show ?thesis using Suc.prems(1) hole len by (subst fm_backshift_loop.simps) simp
  next
    case False
    define x where "x = ?T ! next_idx"
    have Tsn: "?Ts ! next_idx = x" using nnh by (simp add: x_def)
    have "x \<in># slots ?Ts" using slots_nth[of next_idx ?Ts] Tsn False len Suc.prems(1) x_def by simp
    then have xH: "x < length ?H" using valid by blast
    have at: "fm_vec_at (hashes m) x = Some (?H ! x)" using xH by (simp add: fm_vec_at_data)
    define i where "i = ideal ?bc (?H ! x)"
    have i: "i < ?bc" using bc by (simp add: i_def ideal_lt)
    have hm: "hash_and_mask (?H ! x) (bucket_mask m) = i"
      using shape_hash_and_mask[OF shape] by (simp add: i_def)
    have dh: "sz_sub (sz (hole + ?bc)) i AND bucket_mask m = cdist ?bc i hole"
      using shape_hole_dist[OF shape hole i] .
    have dn: "sz_sub (sz (next_idx + ?bc)) i AND bucket_mask m = cdist ?bc i next_idx"
      using shape_hole_dist[OF shape Suc.prems(1) i] .
    have nomove: "\<not> cdist ?bc i hole < cdist ?bc i next_idx"
    proof
      assume lt: "cdist ?bc i hole < cdist ?bc i next_idx"
      have Dn: "dists ?bc ?H ?Ts next_idx = Some (cdist ?bc i next_idx)"
        using Tsn False by (simp add: dists_def i_def x_def)
      from rh_path[OF rh i Suc.prems(1) Dn refl less_imp_le[OF lt]]
      obtain d' where "dists ?bc ?H ?Ts ((i + cdist ?bc i hole) mod ?bc) = Some d'" by blast
      then have "dists ?bc ?H ?Ts hole = Some d'" using fwd_cdist[OF i hole] by simp
      then show False using hole len by (simp add: dists_def)
    qed
    have n: "nxt ?bc next_idx < ?bc" using bc by (simp add: nxt_lt)
    have mu: "cdist ?bc (nxt ?bc next_idx) e = \<mu>"
      using cdist_nxt_target[OF Suc.prems(1) e(1) nne] Suc.prems(2) by simp
    have before: "\<mu> < cdist ?bc (nxt ?bc next_idx) hole"
      using cdist_before_hole_step[OF Suc.prems(1) e(1) hole nne] Suc.prems(2,3) mu by simp
    have step: "fm_backshift_loop m hole next_idx = fm_backshift_loop m hole (nxt ?bc next_idx)"
      using Suc.prems(1) hole len False at hm dh dn nomove shape_next_bucket[OF shape Suc.prems(1)]
      by (subst fm_backshift_loop.simps) (simp add: x_def[symmetric])
    show ?thesis using step Suc.IH[OF n mu before] by simp
  qed
qed

text \<open>
  While the hole is followed directly by displaced entries, each moves back one slot. The
  hole counts as an entry at distance \<open>dh\<close>, the distance of the entry last taken from it.
\<close>

lemma rh_after_clear:
  assumes "rh_ok_d bc ((dists bc H T)(hole := Some dh))" "hole < bc" "length T = bc"
    and "\<forall>d. dists bc H T (nxt bc hole) \<noteq> Some (Suc d)" "nxt bc hole \<noteq> hole"
  shows "rh_ok_d bc (dists bc H (T[hole := FM_EMPTY_IDX]))"
proof -
  have "\<forall>d. ((dists bc H T)(hole := Some dh)) (nxt bc hole) \<noteq> Some (Suc d)"
    using assms(4,5) by simp
  from rh_ok_d_clear[OF assms(1,2) this]
  have "rh_ok_d bc (((dists bc H T)(hole := Some dh))(hole := None))" .
  moreover have "((dists bc H T)(hole := Some dh))(hole := None)
                   = dists bc H (T[hole := FM_EMPTY_IDX])"
    using assms(2,3) by (simp add: dists_update)
  ultimately show ?thesis by simp
qed

lemma backshift_shift:
  assumes shape: "table_shape (bucket_count m) (bucket_mask m)"
  shows "\<lbrakk>length T = bucket_count m;
          \<forall>x\<in>#slots (T[hole := FM_EMPTY_IDX]). x < length (data (hashes m));
          hole < bucket_count m; T ! hole \<noteq> FM_EMPTY_IDX;
          rh_ok_d (bucket_count m) ((dists (bucket_count m) (data (hashes m)) T)(hole := Some dh));
          e < bucket_count m; T ! e = FM_EMPTY_IDX;
          cdist (bucket_count m) (nxt (bucket_count m) hole) e = \<mu>\<rbrakk>
     \<Longrightarrow> \<exists>T'. fm_backshift_loop (m\<lparr>buckets := T\<rparr>) hole (nxt (bucket_count m) hole)
                 = Some (m\<lparr>buckets := T'\<rparr>)
             \<and> length T' = bucket_count m
             \<and> rh_ok_d (bucket_count m) (dists (bucket_count m) (data (hashes m)) T')
             \<and> slots T' = slots (T[hole := FM_EMPTY_IDX])"
proof (induction \<mu> arbitrary: T hole dh)
  case 0
  let ?bc = "bucket_count m" and ?H = "data (hashes m)"
  have bc: "16 \<le> ?bc" using table_shape_bounds[OF shape] by simp
  have n: "nxt ?bc hole < ?bc" using bc by (simp add: nxt_lt)
  have "nxt ?bc hole = e" using 0 n by (simp add: cdist_eq_0)
  then have emp: "T ! nxt ?bc hole = FM_EMPTY_IDX" using 0 by simp
  have res: "fm_backshift_loop (m\<lparr>buckets := T\<rparr>) hole (nxt ?bc hole)
               = Some (m\<lparr>buckets := T[hole := FM_EMPTY_IDX]\<rparr>)"
    using emp n "0.prems"(1,3) by (subst fm_backshift_loop.simps) simp
  have "\<forall>d. dists ?bc ?H T (nxt ?bc hole) \<noteq> Some (Suc d)"
    using emp by (simp add: dists_def)
  from rh_after_clear[OF "0.prems"(5) "0.prems"(3) "0.prems"(1) this]
  have "rh_ok_d ?bc (dists ?bc ?H (T[hole := FM_EMPTY_IDX]))"
    using nxt_neq[of ?bc hole] bc "0.prems"(3) by simp
  then show ?case using res "0.prems"(1) by (intro exI[of _ "T[hole := FM_EMPTY_IDX]"]) simp
next
  case (Suc \<mu>)
  let ?bc = "bucket_count m" and ?H = "data (hashes m)"
  let ?next = "nxt ?bc hole"
  let ?DA = "(dists ?bc ?H T)(hole := Some dh)"
  have bc: "16 \<le> ?bc" using table_shape_bounds[OF shape] by simp
  have n: "?next < ?bc" using bc by (simp add: nxt_lt)
  have nnh: "?next \<noteq> hole" using nxt_neq[of ?bc hole] bc Suc.prems(3) by simp
  have ehole: "e \<noteq> hole" using Suc.prems(4,7) by auto
  show ?case
  proof (cases "T ! ?next = FM_EMPTY_IDX")
    case emp: True
    have res: "fm_backshift_loop (m\<lparr>buckets := T\<rparr>) hole ?next
                 = Some (m\<lparr>buckets := T[hole := FM_EMPTY_IDX]\<rparr>)"
      using emp n Suc.prems(1,3) by (subst fm_backshift_loop.simps) simp
    have "\<forall>d. dists ?bc ?H T ?next \<noteq> Some (Suc d)"
      using emp by (simp add: dists_def)
    from rh_after_clear[OF Suc.prems(5) Suc.prems(3) Suc.prems(1) this nnh]
    have "rh_ok_d ?bc (dists ?bc ?H (T[hole := FM_EMPTY_IDX]))" .
    then show ?thesis using res Suc.prems(1) by (intro exI[of _ "T[hole := FM_EMPTY_IDX]"]) simp
  next
    case occ: False
    define x where "x = T ! ?next"
    have xne: "x \<noteq> FM_EMPTY_IDX" using occ by (simp add: x_def)
    have Tsn: "(T[hole := FM_EMPTY_IDX]) ! ?next = x" using nnh by (simp add: x_def)
    have "x \<in># slots (T[hole := FM_EMPTY_IDX])"
      using slots_nth[of ?next "T[hole := FM_EMPTY_IDX]"] Tsn xne Suc.prems(1) n by simp
    then have xH: "x < length ?H" using Suc.prems(2) by blast
    have at: "fm_vec_at (hashes (m\<lparr>buckets := T\<rparr>)) x = Some (?H ! x)"
      using xH by (simp add: fm_vec_at_data)
    define i where "i = ideal ?bc (?H ! x)"
    have i: "i < ?bc" using bc by (simp add: i_def ideal_lt)
    have hm: "hash_and_mask (?H ! x) (bucket_mask m) = i"
      using shape_hash_and_mask[OF shape] by (simp add: i_def)
    have dth: "sz_sub (sz (hole + ?bc)) i AND bucket_mask m = cdist ?bc i hole"
      using shape_hole_dist[OF shape Suc.prems(3) i] .
    have dtn: "sz_sub (sz (?next + ?bc)) i AND bucket_mask m = cdist ?bc i ?next"
      using shape_hole_dist[OF shape n i] .
    have nb: "next_bucket ?next (bucket_mask m) = nxt ?bc ?next"
      using shape_next_bucket[OF shape n] .
    have nne: "?next \<noteq> e" using occ Suc.prems(7) by auto
    have mu: "cdist ?bc (nxt ?bc ?next) e = \<mu>"
      using cdist_nxt_target[OF n Suc.prems(6) nne] Suc.prems(8) by simp
    have Dn: "dists ?bc ?H T ?next = Some (cdist ?bc i ?next)"
      using occ by (simp add: dists_def i_def x_def)
    have ph: "prv ?bc ?next = hole" using prv_nxt[OF Suc.prems(3)] .
    show ?thesis
    proof (cases "cdist ?bc i ?next = 0")
      case stay: True
      then have "i = ?next" using cdist_eq_0[OF i n] by simp
      then have "cdist ?bc i hole \<noteq> 0" using cdist_eq_0[OF i Suc.prems(3)] nnh by simp
      then have nomove: "\<not> cdist ?bc i hole < cdist ?bc i ?next" using stay by simp
      have step: "fm_backshift_loop (m\<lparr>buckets := T\<rparr>) hole ?next
                    = fm_backshift_loop (m\<lparr>buckets := T\<rparr>) hole (nxt ?bc ?next)"
        using n Suc.prems(1,3) occ at hm dth dtn nomove nb
        by (subst fm_backshift_loop.simps) (simp add: x_def[symmetric])
      have "\<forall>d. dists ?bc ?H T ?next \<noteq> Some (Suc d)" using Dn stay by simp
      from rh_after_clear[OF Suc.prems(5) Suc.prems(3) Suc.prems(1) this nnh]
      have rh': "rh_ok_d ?bc (dists ?bc ?H (T[hole := FM_EMPTY_IDX]))" .
      have n2: "nxt ?bc ?next < ?bc" using bc by (simp add: nxt_lt)
      have "cdist ?bc ?next e < cdist ?bc ?next hole"
        using cdist_before_hole_init[OF _ Suc.prems(6) Suc.prems(3) ehole] bc by simp
      from cdist_before_hole_step[OF n Suc.prems(6) Suc.prems(3) nne this]
      have before: "\<mu> < cdist ?bc (nxt ?bc ?next) hole" using mu by simp
      have "fm_backshift_loop (m\<lparr>buckets := T\<rparr>) hole (nxt ?bc ?next)
              = Some (m\<lparr>buckets := T\<rparr>\<lparr>buckets := (buckets (m\<lparr>buckets := T\<rparr>))[hole := FM_EMPTY_IDX]\<rparr>)"
        by (rule backshift_scan[where e = e and \<mu> = \<mu>])
           (use shape Suc.prems rh' n2 mu before in simp_all)
      then show ?thesis using step rh' Suc.prems(1)
        by (intro exI[of _ "T[hole := FM_EMPTY_IDX]"]) simp
    next
      case moved: False
      then have pos: "0 < cdist ?bc i ?next" by simp
      have dd: "cdist ?bc i hole + 1 = cdist ?bc i ?next"
        using cdist_prv_source[OF i n pos] ph by simp
      then have move: "cdist ?bc i hole < cdist ?bc i ?next" by simp
      let ?T1 = "T[hole := x]"
      have step: "fm_backshift_loop (m\<lparr>buckets := T\<rparr>) hole ?next
                    = fm_backshift_loop (m\<lparr>buckets := ?T1\<rparr>) ?next (nxt ?bc ?next)"
        using n Suc.prems(1,3) occ at hm dth dtn move nb
        by (subst fm_backshift_loop.simps) (simp add: x_def[symmetric])
      have T1n: "?T1 ! ?next = x" using nnh by (simp add: x_def)
      have sl: "slots (?T1[?next := FM_EMPTY_IDX]) = slots (T[hole := FM_EMPTY_IDX])"
        using Suc.prems(1,3,4) n T1n xne by (simp add: slots_update)
      have len1: "length ?T1 = ?bc" using Suc.prems(1) by simp
      have valid1: "\<forall>y\<in>#slots (?T1[?next := FM_EMPTY_IDX]). y < length ?H"
        using sl Suc.prems(2) by simp
      have occ1: "?T1 ! ?next \<noteq> FM_EMPTY_IDX" using T1n xne by simp
      have e1: "?T1 ! e = FM_EMPTY_IDX" using ehole Suc.prems(7) by simp
      have dhole: "\<exists>d'. ?DA (prv ?bc ?next) = Some d' \<and> cdist ?bc i hole \<le> d'"
      proof -
        have "?DA ?next = Some (Suc (cdist ?bc i hole))" using Dn dd nnh by simp
        with Suc.prems(5) n show ?thesis unfolding rh_ok_d_def by blast
      qed
      then have dle: "cdist ?bc i hole \<le> dh" using ph by simp
      have before: "0 < cdist ?bc i hole \<longrightarrow> (\<exists>d'. ?DA (prv ?bc hole) = Some d' \<and> cdist ?bc i hole \<le> d' + 1)"
      proof
        assume "0 < cdist ?bc i hole"
        then obtain y where y: "dh = Suc y" using dle by (cases dh) auto
        then have "?DA hole = Some (Suc y)" by simp
        with Suc.prems(5) Suc.prems(3) obtain d' where "?DA (prv ?bc hole) = Some d'" "y \<le> d'"
          unfolding rh_ok_d_def by blast
        then show "\<exists>d'. ?DA (prv ?bc hole) = Some d' \<and> cdist ?bc i hole \<le> d' + 1"
          using dle y by auto
      qed
      have after: "\<forall>d''. ?DA ?next = Some d'' \<longrightarrow> d'' \<le> cdist ?bc i hole + 1"
        using Dn dd nnh by simp
      have "rh_ok_d ?bc (?DA(hole := Some (cdist ?bc i hole)))"
      proof (rule rh_ok_d_update[OF Suc.prems(5) _ Suc.prems(3)])
        show "2 \<le> ?bc" using bc by simp
        show "0 < cdist ?bc i hole \<longrightarrow> (\<exists>d'. ?DA (prv ?bc hole) = Some d' \<and> cdist ?bc i hole \<le> d' + 1)"
          by (rule before)
        show "\<forall>d''. ?DA ?next = Some d'' \<longrightarrow> d'' \<le> cdist ?bc i hole + 1" by (rule after)
      qed
      moreover have "?DA(hole := Some (cdist ?bc i hole))
                       = (dists ?bc ?H ?T1)(?next := Some (cdist ?bc i ?next))"
        using Suc.prems(1,3) Dn xne by (auto simp: dists_update fun_eq_iff i_def)
      ultimately have rh1: "rh_ok_d ?bc ((dists ?bc ?H ?T1)(?next := Some (cdist ?bc i ?next)))"
        by simp
      from Suc.IH[OF len1 valid1 n occ1 rh1 Suc.prems(6) e1 mu]
      obtain T' where "fm_backshift_loop (m\<lparr>buckets := ?T1\<rparr>) ?next (nxt ?bc ?next)
                         = Some (m\<lparr>buckets := T'\<rparr>)"
        "length T' = ?bc" "rh_ok_d ?bc (dists ?bc ?H T')"
        "slots T' = slots (?T1[?next := FM_EMPTY_IDX])" by blast
      then show ?thesis using step sl by auto
    qed
  qed
qed

subsection \<open>Erase of a located entry\<close>

lemma set_swap_remove_subset: "set (swap_remove p xs) \<subseteq> set xs"
proof (cases "xs = []")
  case True
  then show ?thesis by (simp add: swap_remove_def)
next
  case False
  have "set (butlast (xs[p := last xs])) \<subseteq> set (xs[p := last xs])"
    by (auto dest: in_set_butlastD)
  also have "\<dots> \<subseteq> insert (last xs) (set xs)" by (rule set_update_subset_insert)
  also have "\<dots> = set xs" using False by auto
  finally show ?thesis by (simp add: swap_remove_def)
qed

lemma swap_remove_last: "xs \<noteq> [] \<Longrightarrow> swap_remove (length xs - 1) xs = butlast xs"
  by (simp add: swap_remove_def last_conv_nth)

lemma swap_remove_nth: "xs \<noteq> [] \<Longrightarrow> butlast (xs[p := xs ! (length xs - 1)]) = swap_remove p xs"
  by (simp add: swap_remove_def last_conv_nth)

lemma mset_upt_remove_last: "0 < n \<Longrightarrow> mset [0..<n] - {#n - 1#} = mset [0..<n - 1]"
  by (cases n) simp_all

lemma last_vec_idx: "0 < n \<Longrightarrow> n \<le> 2 ^ 32 \<Longrightarrow> u32 (u32 n + 2 ^ 32 - 1) = n - 1"
proof -
  assume n: "0 < n" "n \<le> 2 ^ 32"
  show ?thesis
  proof (cases "n = 2 ^ 32")
    case True
    then show ?thesis by (simp add: u32_def)
  next
    case False
    then have lt: "n < 2 ^ 32" using n by simp
    then have "u32 n = n" by (simp add: u32_id)
    moreover have "n + 2 ^ 32 - 1 = (n - 1) + 1 * 2 ^ 32" using n by simp
    moreover have "((n - 1) + 1 * 2 ^ 32) mod 2 ^ 32 = n - 1"
      using lt by (simp only: mod_mult_self1) simp
    ultimately show ?thesis by (simp add: u32_def)
  qed
qed

lemma erase_tables:
  assumes ok: "fm_ok c m" and bs: "bs < bucket_count m" "buckets m ! bs = p"
    and p: "p < length (data (keys m))"
    and bl: "bl < bucket_count m" "buckets m ! bl = length (data (keys m)) - 1"
  defines "T1 \<equiv> (buckets m)[bl := p]"
  defines "H' \<equiv> swap_remove p (data (hashes m))"
  shows "slots (T1[bs := FM_EMPTY_IDX]) = mset [0..<length (data (keys m)) - 1]"
    and "rh_ok_d (bucket_count m)
           ((dists (bucket_count m) H' T1)
              (bs := Some (cdist (bucket_count m) (ideal (bucket_count m) (data (hashes m) ! p)) bs)))"
    and "T1 ! bs = p" and "p \<noteq> FM_EMPTY_IDX" and "length T1 = bucket_count m"
    and "p \<noteq> length (data (keys m)) - 1 \<Longrightarrow> bl \<noteq> bs"
    and "p = length (data (keys m)) - 1 \<Longrightarrow> T1 = buckets m"
proof -
  let ?bc = "bucket_count m" and ?T = "buckets m" and ?H = "data (hashes m)"
  let ?n = "length (data (keys m))"
  let ?last = "?n - 1"
  have len: "length ?T = ?bc" using fm_ok_len[OF ok] .
  have lens: "length ?H = ?n" using fm_ok_lengths[OF ok] by simp
  have npos: "0 < ?n" using p by (cases "data (keys m)") auto
  have lastn: "?last < ?n" using npos by simp
  show pne: "p \<noteq> FM_EMPTY_IDX" using fm_ok_slot_of[OF ok p] by blast
  have lne: "?last \<noteq> FM_EMPTY_IDX" using fm_ok_slot_of[OF ok lastn] by blast
  have sl: "slots ?T = mset [0..<?n]" using ok by (simp add: fm_ok_def vec_length_def)
  show T1bs: "T1 ! bs = p" using bs len by (cases "bl = bs") (simp_all add: T1_def)
  show "length T1 = ?bc" using len by (simp add: T1_def)
  show blbs: "p \<noteq> ?last \<Longrightarrow> bl \<noteq> bs" using bs bl by auto
  have same: "p = ?last \<Longrightarrow> bl = bs"
    using fm_ok_unique[OF ok bl(1) bs(1)] bl(2) bs(2) lne by simp
  show "p = ?last \<Longrightarrow> T1 = ?T"
  proof -
    assume "p = ?last"
    then have "bl = bs" by (rule same)
    then have "T1 = ?T[bs := ?T ! bs]" using bs(2) by (simp add: T1_def)
    then show "T1 = ?T" by (simp only: list_update_id)
  qed
  show "slots (T1[bs := FM_EMPTY_IDX]) = mset [0..<?last]"
  proof (cases "bl = bs")
    case True
    then have "p = ?last" using bs bl by simp
    moreover have "T1[bs := FM_EMPTY_IDX] = ?T[bs := FM_EMPTY_IDX]" using True by (simp add: T1_def)
    ultimately show ?thesis
      using bs len pne sl mset_upt_remove_last[OF npos] by (simp add: slots_update)
  next
    case False
    have "slots T1 = slots ?T - {#?last#} + {#p#}"
      using bl len lne pne by (simp add: T1_def slots_update)
    then have "slots (T1[bs := FM_EMPTY_IDX]) = slots ?T - {#?last#}"
      using T1bs bs(1) len pne by (simp add: slots_update T1_def)
    then show ?thesis using sl mset_upt_remove_last[OF npos] by simp
  qed
  let ?dh = "cdist ?bc (ideal ?bc (?H ! p)) bs"
  have "\<forall>b<?bc. dists ?bc ?H ?T b = ((dists ?bc H' T1)(bs := Some ?dh)) b"
  proof (intro allI impI)
    fix b assume b: "b < ?bc"
    show "dists ?bc ?H ?T b = ((dists ?bc H' T1)(bs := Some ?dh)) b"
    proof (cases "b = bs")
      case True
      then show ?thesis using bs pne by (simp add: dists_def)
    next
      case nbs: False
      show ?thesis
      proof (cases "b = bl")
        case True
        then have "p \<noteq> ?last" using same nbs by auto
        then have "p < ?n - 1" using p by simp
        then have "H' ! p = ?H ! ?last"
          using nth_swap_remove[of p ?H p] lens by (simp add: H'_def)
        then show ?thesis using True nbs bl len pne lne by (simp add: dists_def T1_def)
      next
        case False
        then have T1b: "T1 ! b = ?T ! b" by (simp add: T1_def)
        show ?thesis
        proof (cases "?T ! b = FM_EMPTY_IDX")
          case True
          then show ?thesis using nbs T1b by (simp add: dists_def)
        next
          case occ: False
          have x: "?T ! b < ?n" using fm_ok_slot[OF ok b occ] .
          have "?T ! b \<noteq> p" using fm_ok_unique[OF ok b bs(1)] occ bs(2) nbs by auto
          moreover have "?T ! b \<noteq> ?last" using fm_ok_unique[OF ok b bl(1)] occ bl(2) False by auto
          ultimately have "H' ! (?T ! b) = ?H ! (?T ! b)"
            using nth_swap_remove[of "?T ! b" ?H p] x lens by (simp add: H'_def)
          then show ?thesis using nbs T1b occ by (simp add: dists_def)
        qed
      qed
    qed
  qed
  from rh_ok_d_cong[OF this fm_ok_rh[OF ok]]
  show "rh_ok_d ?bc ((dists ?bc H' T1)(bs := Some ?dh))" .
qed

lemma erased_buckets [simp]: "(erased m p T)\<lparr>buckets := T'\<rparr> = erased m p T'"
  by (simp add: erased_def)

lemma erased_simps [simp]:
  "buckets (erased m p T) = T"
  "bucket_count (erased m p T) = bucket_count m"
  "bucket_mask (erased m p T) = bucket_mask m"
  "key_size (erased m p T) = key_size m"
  "val_size (erased m p T) = val_size m"
  "max_load_factor (erased m p T) = max_load_factor m"
  "data (keys (erased m p T)) = swap_remove p (data (keys m))"
  "data (values_v (erased m p T)) = swap_remove p (data (values_v m))"
  "data (hashes (erased m p T)) = swap_remove p (data (hashes m))"
  "stride (keys (erased m p T)) = stride (keys m)"
  "stride (values_v (erased m p T)) = stride (values_v m)"
  by (simp_all add: erased_def)

lemma fm_ok_erased:
  assumes ok: "fm_ok c m" and p: "p < length (data (keys m))"
    and T': "length T' = bucket_count m"
      "rh_ok_d (bucket_count m) (dists (bucket_count m) (swap_remove p (data (hashes m))) T')"
      "slots T' = mset [0..<length (data (keys m)) - 1]"
  shows "fm_ok c (erased m p T')"
proof -
  let ?K = "data (keys m)" and ?V = "data (values_v m)" and ?H = "data (hashes m)"
  let ?n = "length ?K"
  have lens: "length ?H = ?n" "length ?V = ?n" "?n < bucket_count m"
    using fm_ok_lengths[OF ok] by simp_all
  have hash: "\<forall>i<?n - 1. swap_remove p ?H ! i = fm_hash c (swap_remove p ?K ! i) (key_size m)"
  proof (intro allI impI)
    fix i assume i: "i < ?n - 1"
    have "(if i = p then ?n - 1 else i) < ?n" using i by auto
    from fm_ok_hash[OF ok this]
    show "swap_remove p ?H ! i = fm_hash c (swap_remove p ?K ! i) (key_size m)"
      using nth_swap_remove[of i ?H p] nth_swap_remove[of i ?K p] i lens by (simp split: if_splits)
  qed
  have kl: "\<forall>k\<in>set (swap_remove p ?K). length k = key_size m"
    using set_swap_remove_subset[of p ?K] ok unfolding fm_ok_def by blast
  have vl: "\<forall>v\<in>set (swap_remove p ?V). length v = val_size m"
    using set_swap_remove_subset[of p ?V] ok unfolding fm_ok_def by blast
  have di: "distinct (swap_remove p ?K)"
    using distinct_swap_remove[OF _ p] ok unfolding fm_ok_def by blast
  show ?thesis
    using ok T' hash kl vl di lens
    unfolding fm_ok_def dense_ok_def vec_length_def by simp
qed

lemma memcpy_bytes_whole: "length dst = n \<Longrightarrow> length src = n \<Longrightarrow> memcpy_bytes dst src n = src"
  by (simp add: memcpy_bytes_def)

lemma fm_erase_found_ok:
  assumes ok: "fm_ok c m" and bs: "bs < bucket_count m" "buckets m ! bs = p"
    and p: "p < length (data (keys m))"
  shows "\<exists>T'. fm_erase_found m bs p = Some (True, erased m p T') \<and> fm_ok c (erased m p T')"
proof -
  let ?bc = "bucket_count m" and ?T = "buckets m"
  let ?K = "data (keys m)" and ?V = "data (values_v m)" and ?H = "data (hashes m)"
  let ?n = "length ?K"
  let ?last = "?n - 1"
  have bc: "16 \<le> ?bc" "?bc \<le> 2 ^ 32" using fm_ok_bc[OF ok] by simp_all
  have lens: "length ?H = ?n" "length ?V = ?n" "?n < ?bc" using fm_ok_lengths[OF ok] by simp_all
  have npos: "0 < ?n" using p by (cases ?K) auto
  have lastn: "?last < ?n" using npos by simp
  have ne: "?K \<noteq> []" "?V \<noteq> []" "?H \<noteq> []" using npos lens by auto
  have lvi: "u32 (u32 (vec_length (keys m)) + 2 ^ 32 - 1) = ?last"
    using last_vec_idx[OF npos] lens(3) bc by (simp add: vec_length_def)
  from fm_ok_slot_of[OF ok lastn] obtain bl where bl: "bl < ?bc" "?T ! bl = ?last" by blast
  define T1 where "T1 = ?T[bl := p]"
  note et = erase_tables[OF ok bs p bl, folded T1_def]
  let ?mb = "m\<lparr>keys := (keys m)\<lparr>data := ?K[p := ?K ! ?last]\<rparr>,
               values_v := (values_v m)\<lparr>data := ?V[p := ?V ! ?last]\<rparr>,
               hashes := (hashes m)\<lparr>data := ?H[p := ?H ! ?last]\<rparr>,
               buckets := T1\<rparr>"
  have first: "(if p \<noteq> ?last
            then (case fm_move_last m p ?last of
                    None \<Rightarrow> None
                  | Some m \<Rightarrow> fm_update_bucket_for_moved_item m ?last p)
            else Some m) = Some ?mb"
  proof (cases "p = ?last")
    case True
    have "?mb = m" using True et(7)[OF True] by simp
    then show ?thesis using True by simp
  next
    case False
    let ?ma = "m\<lparr>keys := (keys m)\<lparr>data := ?K[p := ?K ! ?last]\<rparr>,
               values_v := (values_v m)\<lparr>data := ?V[p := ?V ! ?last]\<rparr>,
               hashes := (hashes m)\<lparr>data := ?H[p := ?H ! ?last]\<rparr>\<rparr>"
    have kl: "length (?K ! p) = key_size m" "length (?K ! ?last) = key_size m"
      using ok p lastn unfolding fm_ok_def by simp_all
    have vl: "length (?V ! p) = val_size m" "length (?V ! ?last) = val_size m"
      using ok p lastn lens unfolding fm_ok_def by simp_all
    have mk: "memcpy_bytes (?K ! p) (?K ! ?last) (key_size m) = ?K ! ?last"
      using kl by (simp add: memcpy_bytes_whole)
    have mvv: "memcpy_bytes (?V ! p) (?V ! ?last) (val_size m) = ?V ! ?last"
      using vl by (simp add: memcpy_bytes_whole)
    have mv: "fm_move_last m p ?last = Some ?ma"
      using p lastn lens mk mvv by (simp add: fm_move_last_def fm_vec_at_data)
    have at: "fm_vec_at (hashes ?ma) p = Some (?H ! ?last)"
      using p lens by (simp add: fm_vec_at_data)
    have i: "ideal ?bc (?H ! ?last) < ?bc" using bc by (simp add: ideal_lt)
    have uniq: "\<forall>b<bucket_count ?ma. buckets ?ma ! b = ?last \<longrightarrow> b = bl"
    proof (intro allI impI)
      fix b assume "b < bucket_count ?ma" "buckets ?ma ! b = ?last"
      then show "b = bl"
        using fm_ok_unique[OF ok _ bl(1), of b] bl(2) fm_ok_slot_of[OF ok lastn] by auto
    qed
    have "fm_update_bucket_loop ?ma ?last p (ideal ?bc (?H ! ?last))
            = Some (?ma\<lparr>buckets := (buckets ?ma)[bl := p]\<rparr>)"
      by (rule update_bucket_loop[OF _ _ _ _ uniq _ refl])
         (use fm_ok_shape[OF ok] fm_ok_len[OF ok] bl i in simp_all)
    then have "fm_update_bucket_for_moved_item ?ma ?last p = Some ?mb"
      using at by (simp add: fm_update_bucket_for_moved_item_def
          shape_hash_and_mask[OF fm_ok_shape[OF ok]] T1_def)
    then show ?thesis using False mv by simp
  qed
  have pops: "vec_pop (keys ?mb) = Some ((keys m)\<lparr>data := swap_remove p ?K\<rparr>)"
    "vec_pop (values_v ?mb) = Some ((values_v m)\<lparr>data := swap_remove p ?V\<rparr>)"
    "vec_pop (hashes ?mb) = Some ((hashes m)\<lparr>data := swap_remove p ?H\<rparr>)"
    using ne lens swap_remove_nth[of ?K p] swap_remove_nth[of ?V p] swap_remove_nth[of ?H p]
    by (simp_all add: vec_pop_def)
  have mc: "?mb\<lparr>keys := (keys m)\<lparr>data := swap_remove p ?K\<rparr>,
               values_v := (values_v m)\<lparr>data := swap_remove p ?V\<rparr>,
               hashes := (hashes m)\<lparr>data := swap_remove p ?H\<rparr>\<rparr> = erased m p T1"
    by (simp add: erased_def)
  have nb: "next_bucket bs (bucket_mask ?mb) = nxt ?bc bs"
    using shape_next_bucket[OF fm_ok_shape[OF ok] bs(1)] by simp
  from fm_ok_free[OF ok] obtain e where e: "e < ?bc" "?T ! e = FM_EMPTY_IDX" by blast
  have "e \<noteq> bl" using e bl fm_ok_slot_of[OF ok lastn] by auto
  then have e1: "T1 ! e = FM_EMPTY_IDX" using e by (simp add: T1_def)
  have valid: "\<forall>x\<in>#slots (T1[bs := FM_EMPTY_IDX]). x < length (data (hashes (erased m p T1)))"
    unfolding et(1) using lens by simp
  have "\<exists>T'. fm_backshift_loop ((erased m p T1)\<lparr>buckets := T1\<rparr>) bs (nxt (bucket_count (erased m p T1)) bs)
                 = Some ((erased m p T1)\<lparr>buckets := T'\<rparr>)
             \<and> length T' = bucket_count (erased m p T1)
             \<and> rh_ok_d (bucket_count (erased m p T1))
                  (dists (bucket_count (erased m p T1)) (data (hashes (erased m p T1))) T')
             \<and> slots T' = slots (T1[bs := FM_EMPTY_IDX])"
  proof (rule backshift_shift[where e = e])
    show "table_shape (bucket_count (erased m p T1)) (bucket_mask (erased m p T1))"
      using fm_ok_shape[OF ok] by simp
    show "length T1 = bucket_count (erased m p T1)" using et(5) by simp
    show "\<forall>x\<in>#slots (T1[bs := FM_EMPTY_IDX]). x < length (data (hashes (erased m p T1)))"
      by (rule valid)
    show "bs < bucket_count (erased m p T1)" using bs by simp
    show "T1 ! bs \<noteq> FM_EMPTY_IDX" using et(3,4) by simp
    show "rh_ok_d (bucket_count (erased m p T1))
           ((dists (bucket_count (erased m p T1)) (data (hashes (erased m p T1))) T1)
              (bs := Some (cdist ?bc (ideal ?bc (?H ! p)) bs)))"
      using et(2) by simp
    show "e < bucket_count (erased m p T1)" using e by simp
    show "T1 ! e = FM_EMPTY_IDX" by (rule e1)
    show "cdist (bucket_count (erased m p T1)) (nxt (bucket_count (erased m p T1)) bs) e
            = cdist ?bc (nxt ?bc bs) e" by simp
  qed
  then obtain T' where T': "fm_backshift_loop (erased m p T1) bs (nxt ?bc bs) = Some (erased m p T')"
    "length T' = ?bc" "rh_ok_d ?bc (dists ?bc (swap_remove p ?H) T')"
    "slots T' = mset [0..<?last]"
    using et(1) by auto
  have "fm_erase_found m bs p = Some (True, erased m p T')"
    unfolding fm_erase_found_def Let_def lvi first
    using pops mc nb T'(1) by simp
  moreover have "fm_ok c (erased m p T')" using fm_ok_erased[OF ok p T'(2,3,4)] .
  ultimately show ?thesis by blast
qed

subsection \<open>Erase\<close>

lemma fm_erase_present:
  assumes ok: "fm_ok c m" and key: "key_size m \<le> length key"
    and p: "p < length (data (keys m))" "take (key_size m) key = data (keys m) ! p"
  shows "\<exists>T'. fm_erase c m key = Some (True, erased m p T') \<and> fm_ok c (erased m p T')"
proof -
  let ?bc = "bucket_count m"
  from fm_ok_slot_of[OF ok p(1)] obtain bs where bs: "bs < ?bc" "buckets m ! bs = p" by blast
  have h: "fm_hash c key (key_size m) = data (hashes m) ! p" using fm_ok_key_hash[OF ok p] .
  have i: "ideal ?bc (data (hashes m) ! p) < ?bc" using fm_ok_bc[OF ok] by (simp add: ideal_lt)
  have "fm_erase_loop m key ((ideal ?bc (data (hashes m) ! p) + 0) mod ?bc) 0 = fm_erase_found m bs p"
    by (rule erase_loop_found[OF ok p(1) bs p(2)]) simp
  then have "fm_erase c m key = fm_erase_found m bs p"
    using i key by (simp add: fm_erase_def h shape_hash_and_mask[OF fm_ok_shape[OF ok]])
  then show ?thesis using fm_erase_found_ok[OF ok bs p(1)] by simp
qed

lemma fm_erase_absent:
  assumes ok: "fm_ok c m" and key: "key_size m \<le> length key"
    and absent: "take (key_size m) key \<notin> set (data (keys m))"
  shows "fm_erase c m key = Some (False, m)"
proof -
  let ?bc = "bucket_count m"
  from fm_ok_free[OF ok] obtain e where e: "e < ?bc" "buckets m ! e = FM_EMPTY_IDX" by blast
  have i: "ideal ?bc (fm_hash c key (key_size m)) < ?bc" using fm_ok_bc[OF ok] by (simp add: ideal_lt)
  have "fm_erase_loop m key (ideal ?bc (fm_hash c key (key_size m))) 0 = Some (False, m)"
    by (rule erase_loop_absent[OF ok absent e i refl])
  then show ?thesis
    using key by (simp add: fm_erase_def shape_hash_and_mask[OF fm_ok_shape[OF ok]])
qed

lemma key_present_cases:
  obtains (present) p where "p < length xs" "k = xs ! p" | (absent) "k \<notin> set xs"
  by (metis in_set_conv_nth)

subsection \<open>Every reachable state satisfies the invariant\<close>

lemma load_ok_init: "load_ok (fm_init ks vs)"
  by (simp add: load_ok_def fm_init_def fm_vec_init_def vec_length_def)

lemma fm_put_reach:
  assumes ok: "fm_ok c m" "load_ok m" and n: "vec_length (keys m) < 2 ^ 31"
    and put: "fm_put c m key value = Some m'"
  shows "fm_ok c m' \<and> load_ok m'"
proof -
  have kv: "key_size m \<le> length key" "val_size m \<le> length value"
    using put by (auto simp: fm_put_def split: if_splits)
  have bc: "16 \<le> bucket_count m" using fm_ok_bc[OF ok(1)] by simp
  show ?thesis
  proof (cases "take (key_size m) key" "data (keys m)" rule: key_present_cases)
    case (present p)
    from fm_put_present[OF ok(1) n kv present(1) present(2)] put
    have m': "fm_ok c m'" "vec_length (keys m') = vec_length (keys m)"
        "bucket_count m' = (if fm_load_check m then 2 * bucket_count m else bucket_count m)"
      by (auto simp: vec_length_def)
    then show ?thesis using ok(2) by (auto simp: load_ok_def)
  next
    case absent
    from fm_put_absent[OF ok(1) n kv absent] put
    have m': "fm_ok c m'" "vec_length (keys m') = Suc (vec_length (keys m))"
        "bucket_count m' = (if fm_load_check m then 2 * bucket_count m else bucket_count m)"
      by (auto simp: vec_length_def)
    show ?thesis
    proof (cases "fm_load_check m")
      case True
      then show ?thesis using m' ok(2) bc by (simp add: load_ok_def)
    next
      case False
      then show ?thesis using m' no_resize_below[OF ok(1) False] by (simp add: load_ok_def)
    qed
  qed
qed

lemma fm_erase_reach:
  assumes ok: "fm_ok c m" "load_ok m" and er: "fm_erase c m key = Some (found, m')"
  shows "fm_ok c m' \<and> load_ok m'"
proof -
  have k: "key_size m \<le> length key" using er by (auto simp: fm_erase_def split: if_splits)
  show ?thesis
  proof (cases "take (key_size m) key" "data (keys m)" rule: key_present_cases)
    case (present p)
    from fm_erase_present[OF ok(1) k present(1) present(2)] er
    obtain T' where "m' = erased m p T'" "fm_ok c (erased m p T')" by auto
    then show ?thesis using ok(2) by (auto simp: load_ok_def vec_length_def)
  next
    case absent
    from fm_erase_absent[OF ok(1) k absent] er show ?thesis using ok by simp
  qed
qed

lemma fm_resize_reach:
  assumes ok: "fm_ok c m" "load_ok m" and bc: "bucket_count m < 2 ^ 32"
    and rs: "fm_resize m (2 * bucket_count m) = Some m'"
  shows "fm_ok c m' \<and> load_ok m'"
proof -
  let ?bc = "2 * bucket_count m"
  from fm_ok_shape[OF ok(1)] obtain k where k: "4 \<le> k" "k \<le> 32" "bucket_count m = 2 ^ k"
    by (auto simp: table_shape_def)
  have "(2::nat) ^ k < 2 ^ 32" using bc k by simp
  then have "k < 32" by (rule power_less_imp_less_exp[rotated]) simp
  then have "4 \<le> Suc k \<and> Suc k \<le> 32 \<and> ?bc = 2 ^ Suc k" using k by simp
  then have sh: "table_shape ?bc (?bc - 1)" unfolding table_shape_def by blast
  have len: "vec_length (hashes m) = vec_length (keys m)" using ok by (simp add: fm_ok_def dense_ok_def)
  have lt: "vec_length (keys m) < ?bc" using fm_ok_lengths[OF ok(1)] by (simp add: vec_length_def)
  from fm_resize_ok[OF sh len lt] rs obtain T' where
    T': "m' = m\<lparr>buckets := T', bucket_count := ?bc, bucket_mask := ?bc - 1\<rparr>"
      "length T' = ?bc" "rh_ok_d ?bc (dists ?bc (data (hashes m)) T')"
      "slots T' = mset [0..<vec_length (keys m)]" by auto
  have "fm_ok c m'"
    using ok(1) sh T' lt unfolding fm_ok_def dense_ok_def by simp
  moreover have "load_ok m'" using ok(2) T'(1) by (simp add: load_ok_def)
  ultimately show ?thesis ..
qed

lemma fm_reach_ok: "fm_reach c m \<Longrightarrow> fm_ok c m \<and> load_ok m"
proof (induction rule: fm_reach.induct)
  case (reach_init ks vs)
  show ?case using fm_ok_init load_ok_init by simp
next
  case (reach_put m key "value" m')
  then show ?case using fm_put_reach by blast
next
  case (reach_erase m key found m')
  then show ?case using fm_erase_reach by blast
next
  case (reach_resize m m')
  then show ?case using fm_resize_reach by blast
qed

subsection \<open>Lookup by dense position\<close>

lemma key_index_None: "key_index xs k = None \<longleftrightarrow> k \<notin> set xs"
  by (induction xs) auto

lemma key_index_Some: "key_index xs k = Some p \<Longrightarrow> p < length xs \<and> xs ! p = k"
  by (induction xs arbitrary: p) (auto split: if_splits)

lemma key_index_distinct:
  "distinct xs \<Longrightarrow> p < length xs \<Longrightarrow> key_index xs (xs ! p) = Some p"
proof (induction xs arbitrary: p)
  case Nil
  then show ?case by simp
next
  case (Cons x xs)
  show ?case
  proof (cases p)
    case 0
    then show ?thesis by simp
  next
    case (Suc q)
    then have "xs ! q \<in> set xs" using Cons.prems by simp
    then have "x \<noteq> xs ! q" using Cons.prems by auto
    then show ?thesis using Suc Cons by simp
  qed
qed

lemma fm_ok_distinct: "fm_ok c m \<Longrightarrow> distinct (data (keys m))"
  by (simp add: fm_ok_def)

lemma fm_get_correct:
  assumes ok: "fm_ok c m" and key: "key_size m \<le> length key"
  shows "fm_get c m key = Some (key_index (data (keys m)) (take (key_size m) key))"
proof (cases "take (key_size m) key" "data (keys m)" rule: key_present_cases)
  case (present p)
  then show ?thesis
    using fm_get_present[OF ok key present] key_index_distinct[OF fm_ok_distinct[OF ok] present(1)]
    by simp
next
  case absent
  then have "key_index (data (keys m)) (take (key_size m) key) = None"
    using key_index_None[of "data (keys m)" "take (key_size m) key"] by blast
  then show ?thesis using fm_get_absent[OF ok key absent] by simp
qed

lemma slots_bij:
  assumes "slots T = mset [0..<n]"
  shows "bij_betw (\<lambda>b. T ! b) {b. b < length T \<and> T ! b \<noteq> FM_EMPTY_IDX} {0..<n}"
  unfolding bij_betw_def
proof
  have "\<forall>x. count (slots T) x \<le> 1" using assms count_mset_upt by metis
  then show "inj_on (\<lambda>b. T ! b) {b. b < length T \<and> T ! b \<noteq> FM_EMPTY_IDX}"
    using slots_unique[of T] by (auto simp: inj_on_def)
  show "(\<lambda>b. T ! b) ` {b. b < length T \<and> T ! b \<noteq> FM_EMPTY_IDX} = {0..<n}"
  proof (rule set_eqI)
    fix x
    show "x \<in> (\<lambda>b. T ! b) ` {b. b < length T \<and> T ! b \<noteq> FM_EMPTY_IDX} \<longleftrightarrow> x \<in> {0..<n}"
    proof
      assume "x \<in> (\<lambda>b. T ! b) ` {b. b < length T \<and> T ! b \<noteq> FM_EMPTY_IDX}"
      then obtain b where "b < length T" "T ! b \<noteq> FM_EMPTY_IDX" "x = T ! b" by auto
      then have "x \<in># slots T" using slots_nth by simp
      then show "x \<in> {0..<n}" using assms by simp
    next
      assume "x \<in> {0..<n}"
      then have "x \<in># slots T" using assms by simp
      from slots_member[OF this] show "x \<in> (\<lambda>b. T ! b) ` {b. b < length T \<and> T ! b \<noteq> FM_EMPTY_IDX}"
        by auto
    qed
  qed
qed

subsection \<open>Evaluating the model on concrete maps\<close>

lemma replicate_numeral: "replicate (numeral k) x = x # replicate (pred_numeral k) x"
  by (simp add: numeral_eq_Suc)

lemmas fm_eval_ops = replicate_numeral
  fm_put_def fm_get_def fm_erase_def fm_init_def fm_vec_init_def fm_vec_push_def fm_vec_grow_def
  fm_vec_at_def vec_length_def fm_place_index_def fm_place_index_loop.simps fm_put_probe.simps
  fm_get_loop.simps fm_erase_loop.simps fm_erase_found_def fm_move_last_def vec_pop_def
  fm_update_bucket_for_moved_item_def fm_update_bucket_loop.simps fm_backshift_loop.simps
  fm_resize_def fm_resize_loop.simps fm_load_check_def binary32_le_def
  binary32_mult_def binary32_of_size_def round_binary32_def float_0_80_def bit_length.simps
  hash_and_mask_def probe_dist_def next_bucket_def sz_def sz_sub_def u32_def FM_EMPTY_IDX_def
  memcpy_bytes_def value_at_def Let_def

lemmas fm_eval = fm_eval_ops fm_hash_def fm_hash_loop.simps fm_wymix_def

lemma example_hashes:
  "fm_hash True [0, 0, 0, 0] 4 = 14168740207302788609"
  "fm_hash True [1, 0, 0, 0] 4 = 4026802123573173867"
  "fm_hash True [2, 0, 0, 0] 4 = 4478733138256410452"
  "fm_hash True [3, 0, 0, 0] 4 = 10475444317061615575"
  "fm_hash True [4, 0, 0, 0] 4 = 3593457408663545214"
  "fm_hash True [5, 0, 0, 0] 4 = 7286753298905382352"
  "fm_hash True [6, 0, 0, 0] 4 = 7720071642178279133"
  "fm_hash True [7, 0, 0, 0] 4 = 16041238503755263244"
  "fm_hash True [8, 0, 0, 0] 4 = 3073901928341674322"
  "fm_hash True [9, 0, 0, 0] 4 = 11378743103767564797"
  "fm_hash True [10, 0, 0, 0] 4 = 9524804718273563366"
  "fm_hash True [11, 0, 0, 0] 4 = 17829637096532689176"
  "fm_hash True [12, 0, 0, 0] 4 = 10927383989794683112"
  "fm_hash True [20, 0, 0, 0] 4 = 5028400634280894787"
  by code_simp+

lemma example_map_put: "fm_put True (fm_init 4 4) [10, 0, 0, 0] [100, 0, 0, 0] = Some example_map"
  by (simp add: fm_eval_ops example_hashes example_map_def)

lemma example_map_reach: "fm_reach True example_map"
  by (rule reach_put[OF reach_init _ example_map_put]) (simp add: fm_init_def fm_vec_init_def vec_length_def)

lemma example_map_get: "fm_get True example_map [10, 0, 0, 0] = Some (Some 0)"
  by (simp add: fm_eval_ops example_hashes example_map_def)

lemma example_map_erase: "fm_erase True example_map [10, 0, 0, 0] = Some (True, fm_init 4 4)"
  by (simp add: fm_eval_ops example_hashes example_map_def)

subsection \<open>Put followed by get\<close>

lemma fm_put_all_append:
  "fm_put_all c m (xs @ ys) =
     (case fm_put_all c m xs of None \<Rightarrow> None | Some m' \<Rightarrow> fm_put_all c m' ys)"
  by (induction xs arbitrary: m) (auto split: option.splits)

lemma fm_put_total:
  assumes ok: "fm_ok c m" and n: "vec_length (keys m) < 2 ^ 31"
    and kv: "key_size m \<le> length key" "val_size m \<le> length value"
  shows "\<exists>m' idx. fm_put c m key value = Some m' \<and> fm_ok c m'
           \<and> key_size m' = key_size m \<and> val_size m' = val_size m
           \<and> vec_length (keys m') \<le> Suc (vec_length (keys m))
           \<and> idx < length (data (keys m')) \<and> data (keys m') ! idx = take (key_size m) key
           \<and> data (values_v m') ! idx = take (val_size m) value
           \<and> data (hashes m') ! idx = fm_hash c key (key_size m)"
proof (cases "take (key_size m) key" "data (keys m)" rule: key_present_cases)
  case (present p)
  from fm_put_present[OF ok n kv present] obtain m1 where
    m1: "fm_ok c m1" "keys m1 = keys m" "hashes m1 = hashes m"
      "fm_put c m key value = Some (m1\<lparr>values_v := (values_v m)\<lparr>data :=
                          (data (values_v m))[p := take (val_size m) value]\<rparr>\<rparr>)"
      "fm_ok c (m1\<lparr>values_v := (values_v m)\<lparr>data :=
                          (data (values_v m))[p := take (val_size m) value]\<rparr>\<rparr>)"
      "(if fm_load_check m then fm_resize m (sz (bucket_count m * 2)) else Some m) = Some m1"
    by blast
  have ks: "key_size m1 = key_size m" "val_size m1 = val_size m"
    using m1(6) by (auto simp: fm_resize_def Let_def split: if_splits option.splits)
  have pv: "p < length (data (values_v m))" using fm_ok_lengths[OF ok] present(1) by simp
  show ?thesis
    using m1 ks present pv fm_ok_key_hash[OF ok present]
    by (intro exI[of _ "m1\<lparr>values_v := (values_v m)\<lparr>data :=
                          (data (values_v m))[p := take (val_size m) value]\<rparr>\<rparr>"] exI[of _ p])
       (simp add: vec_length_def)
next
  case absent
  from fm_put_absent[OF ok n kv absent] obtain m' where
    m': "fm_put c m key value = Some m'" "fm_ok c m'"
      "data (keys m') = data (keys m) @ [take (key_size m) key]"
      "data (values_v m') = data (values_v m) @ [take (val_size m) value]"
      "data (hashes m') = data (hashes m) @ [fm_hash c key (key_size m)]"
      "key_size m' = key_size m" "val_size m' = val_size m" by blast
  have l: "length (data (values_v m)) = length (data (keys m))"
    "length (data (hashes m)) = length (data (keys m))" using fm_ok_lengths[OF ok] by simp_all
  have "(data (values_v m) @ [take (val_size m) value]) ! length (data (keys m)) = take (val_size m) value"
    using l(1) nth_append_length[of "data (values_v m)"] by metis
  moreover have "(data (hashes m) @ [fm_hash c key (key_size m)]) ! length (data (keys m)) = fm_hash c key (key_size m)"
    using l(2) nth_append_length[of "data (hashes m)"] by metis
  ultimately show ?thesis
    using m'
    by (intro exI[of _ m'] exI[of _ "length (data (keys m))"]) (simp add: vec_length_def)
qed

lemma put_then_get:
  assumes ok: "fm_ok c m" and n: "vec_length (keys m) < 2 ^ 31"
    and kv: "key_size m \<le> length key" "val_size m \<le> length value"
  shows "\<exists>m' idx. fm_put c m key value = Some m' \<and> fm_get c m' key = Some (Some idx)
           \<and> value_at m' idx = Some (take (val_size m) value)"
proof -
  from fm_put_total[OF ok n kv] obtain m' idx where
    m': "fm_put c m key value = Some m'" "fm_ok c m'" "key_size m' = key_size m"
      "idx < length (data (keys m'))" "data (keys m') ! idx = take (key_size m) key"
      "data (values_v m') ! idx = take (val_size m) value" by blast
  have "fm_get c m' key = Some (Some idx)"
    by (rule fm_get_present[OF m'(2)]) (use m' kv in simp_all)
  moreover have "value_at m' idx = Some (take (val_size m) value)"
    using m'(4,6) fm_ok_lengths[OF m'(2)] by (simp add: value_at_def fm_vec_at_data)
  ultimately show ?thesis using m'(1) by blast
qed

lemma fm_put_all_reach:
  "\<lbrakk>fm_reach c m; vec_length (keys m) + length kvs < 2 ^ 31;
    \<forall>(key, value)\<in>set kvs. key_size m \<le> length key \<and> val_size m \<le> length value\<rbrakk>
   \<Longrightarrow> \<exists>m'. fm_put_all c m kvs = Some m' \<and> fm_reach c m'
          \<and> key_size m' = key_size m \<and> val_size m' = val_size m
          \<and> vec_length (keys m') \<le> vec_length (keys m) + length kvs"
proof (induction kvs arbitrary: m)
  case Nil
  then show ?case by simp
next
  case (Cons kv kvs)
  obtain key "value" where kv: "kv = (key, value)" by (cases kv)
  have ok: "fm_ok c m" using fm_reach_ok[OF Cons.prems(1)] by simp
  have n: "vec_length (keys m) < 2 ^ 31" using Cons.prems(2) by simp
  have sz: "key_size m \<le> length key" "val_size m \<le> length value" using Cons.prems(3) kv by auto
  from fm_put_total[OF ok n sz] obtain m1 where
    m1: "fm_put c m key value = Some m1" "key_size m1 = key_size m" "val_size m1 = val_size m"
      "vec_length (keys m1) \<le> Suc (vec_length (keys m))" by blast
  have r1: "fm_reach c m1" using reach_put[OF Cons.prems(1) n m1(1)] .
  have "\<exists>m'. fm_put_all c m1 kvs = Some m' \<and> fm_reach c m'
          \<and> key_size m' = key_size m1 \<and> val_size m' = val_size m1
          \<and> vec_length (keys m') \<le> vec_length (keys m1) + length kvs"
    by (rule Cons.IH[OF r1]) (use Cons.prems m1 in auto)
  then show ?case using m1 kv by auto
qed

lemma example_map2_put: "fm_put True example_map [20, 0, 0, 0] [200, 0, 0, 0] = Some example_map2"
  by (simp add: fm_eval_ops example_hashes example_map_def example_map2_def)

lemma example_map2_reach: "fm_reach True example_map2"
  by (rule reach_put[OF example_map_reach _ example_map2_put])
     (simp add: example_map_def vec_length_def)

lemma example_map2_get: "fm_get True example_map2 [20, 0, 0, 0] = Some (Some 1)"
  by (simp add: fm_eval_ops example_hashes example_map2_def)

lemma full_map_puts: "fm_put_all True (fm_init 4 4) thirteen_puts = Some full_map"
  by (simp add: fm_eval_ops example_hashes thirteen_puts_def full_map_def)

subsection \<open>Resize as a fold over the dense positions\<close>

lemma fold_place_None:
  "fold (\<lambda>i acc. case acc of None \<Rightarrow> None | Some T \<Rightarrow> f i T) xs None = None"
  by (induction xs) simp_all

lemma fm_resize_loop_fold:
  "i \<le> vec_length (keys m) \<Longrightarrow> vec_length (keys m) - i = k \<Longrightarrow>
   fm_resize_loop m new_mask i T =
     fold (\<lambda>i acc. case acc of
                      None \<Rightarrow> None
                    | Some T \<Rightarrow>
                        (case fm_vec_at (hashes m) i of
                           None \<Rightarrow> None
                         | Some digest \<Rightarrow> fm_place_index T new_mask digest (u32 i) (hashes m)))
          [i..<vec_length (keys m)] (Some T)"
proof (induction k arbitrary: i T)
  case 0
  then show ?case by (subst fm_resize_loop.simps) simp
next
  case (Suc k)
  then have i: "i < vec_length (keys m)" by simp
  have u: "[i..<vec_length (keys m)] = i # [Suc i..<vec_length (keys m)]"
    using i by (simp add: upt_conv_Cons)
  show ?case
  proof (cases "fm_vec_at (hashes m) i")
    case None
    then show ?thesis using i unfolding u
      by (subst fm_resize_loop.simps) (simp add: fold_place_None)
  next
    case (Some h)
    show ?thesis
    proof (cases "fm_place_index T new_mask h (u32 i) (hashes m)")
      case None
      then show ?thesis using i Some unfolding u
        by (subst fm_resize_loop.simps) (simp add: fold_place_None)
    next
      case (Some T')
      have "fm_resize_loop m new_mask (Suc i) T' =
              fold (\<lambda>i acc. case acc of
                      None \<Rightarrow> None
                    | Some T \<Rightarrow>
                        (case fm_vec_at (hashes m) i of
                           None \<Rightarrow> None
                         | Some digest \<Rightarrow> fm_place_index T new_mask digest (u32 i) (hashes m)))
                [Suc i..<vec_length (keys m)] (Some T')"
        by (rule Suc.IH) (use Suc.prems in simp_all)
      then show ?thesis using i \<open>fm_vec_at (hashes m) i = Some h\<close> Some unfolding u
        by (subst fm_resize_loop.simps) simp
    qed
  qed
qed

lemma fm_resize_rebuild:
  "fm_resize m new_capacity =
     (case rebuild_index (hashes m) (vec_length (keys m)) new_capacity of
        None \<Rightarrow> None
      | Some T \<Rightarrow>
          Some (m\<lparr>buckets := T, bucket_count := new_capacity,
                  bucket_mask := sz_sub new_capacity 1\<rparr>))"
  unfolding fm_resize_def rebuild_index_def Let_def
  by (subst fm_resize_loop_fold[OF _ refl]) simp_all

subsection \<open>The bytes of a pointer\<close>

lemma upt_8: "[0..<8] = [0, 1, 2, 3, 4, 5, 6, Suc 6]"
  by (simp add: eval_nat_numeral upt_conv_Cons)

lemma le_word_word_bytes: "le_word (word_bytes 8 (w :: 64 word)) = w"
proof (rule bit_word_eqI)
  fix n :: nat
  assume "n < LENGTH(64)"
  then have n: "n < 64" by simp
  have a: "\<And>k. k \<le> n \<Longrightarrow> k + (n - k) = n" by simp
  from n consider "n < 8" | "8 \<le> n" "n < 16" | "16 \<le> n" "n < 24" | "24 \<le> n" "n < 32"
    | "32 \<le> n" "n < 40" | "40 \<le> n" "n < 48" | "48 \<le> n" "n < 56" | "56 \<le> n" "n < 64"
    by linarith
  then show "bit (le_word (word_bytes 8 w)) n = bit w n"
    by cases (auto simp add: word_bytes_def upt_8 bit_or_iff bit_push_bit_iff bit_ucast_iff
        bit_drop_bit_eq a)
qed

lemma pointer_key_inj: "pointer_key p = pointer_key q \<longleftrightarrow> p = q"
  unfolding pointer_key_def by (metis le_word_word_bytes)

lemma length_pointer_key: "length (pointer_key p) = 8"
  by (simp add: pointer_key_def word_bytes_def)

lemma full_map_reach: "fm_reach True full_map"
proof -
  have "vec_length (keys (fm_init 4 4)) + length thirteen_puts < 2 ^ 31"
    by (simp add: fm_init_def fm_vec_init_def vec_length_def thirteen_puts_def)
  moreover have "\<forall>(key, value)\<in>set thirteen_puts.
      key_size (fm_init 4 4) \<le> length key \<and> val_size (fm_init 4 4) \<le> length value"
    by (simp add: fm_init_def thirteen_puts_def)
  ultimately show ?thesis
    using fm_put_all_reach[OF reach_init, of 4 4 thirteen_puts True] full_map_puts by auto
qed

lemma full_map_load_check: "fm_load_check full_map"
  by (simp add: fm_eval_ops full_map_def)

lemma full_map_put_again: "fm_put True full_map [3, 0, 0, 0] [7, 0, 0, 0] = Some full_map_updated"
  by (simp add: fm_eval_ops example_hashes full_map_def full_map_updated_def)

subsection \<open>The operations read the key through its first \<open>key_size\<close> bytes\<close>

lemma put_probe_result:
  assumes ok: "fm_ok c m" and key: "key_size m \<le> length key"
  shows "fm_put_probe m key (hash_and_mask (fm_hash c key (key_size m)) (bucket_mask m)) 0
           = Some (key_index (data (keys m)) (take (key_size m) key))"
proof (cases "take (key_size m) key" "data (keys m)" rule: key_present_cases)
  case (present p)
  let ?bc = "bucket_count m"
  from fm_ok_slot_of[OF ok present(1)] obtain bs where bs: "bs < ?bc" "buckets m ! bs = p" by blast
  have h: "fm_hash c key (key_size m) = data (hashes m) ! p"
    using fm_ok_key_hash[OF ok present] .
  have i: "ideal ?bc (data (hashes m) ! p) < ?bc" using fm_ok_bc[OF ok] by (simp add: ideal_lt)
  have "fm_put_probe m key ((ideal ?bc (data (hashes m) ! p) + 0) mod ?bc) 0 = Some (Some p)"
    by (rule put_probe_found[OF ok present(1) bs present(2)]) simp
  then have "fm_put_probe m key (hash_and_mask (fm_hash c key (key_size m)) (bucket_mask m)) 0
                      = Some (Some p)"
    using i by (simp add: h shape_hash_and_mask[OF fm_ok_shape[OF ok]])
  then show ?thesis
    using key_index_distinct[OF fm_ok_distinct[OF ok] present(1)] present(2) by simp
next
  case absent
  let ?bc = "bucket_count m"
  from fm_ok_free[OF ok] obtain e where e: "e < ?bc" "buckets m ! e = FM_EMPTY_IDX" by blast
  have i: "ideal ?bc (fm_hash c key (key_size m)) < ?bc" using fm_ok_bc[OF ok] by (simp add: ideal_lt)
  have "fm_put_probe m key (hash_and_mask (fm_hash c key (key_size m)) (bucket_mask m)) 0
                 = Some None"
    unfolding shape_hash_and_mask[OF fm_ok_shape[OF ok]]
    by (rule put_probe_absent[OF ok absent e i refl])
  moreover have "key_index (data (keys m)) (take (key_size m) key) = None"
    using absent key_index_None[of "data (keys m)" "take (key_size m) key"] by blast
  ultimately show ?thesis by simp
qed

lemma fm_put_cong:
  assumes ok: "fm_ok c m" and n: "vec_length (keys m) < 2 ^ 31"
    and eq: "take (key_size m) key' = take (key_size m) key"
    and len: "key_size m \<le> length key" "key_size m \<le> length key'"
  shows "fm_put c m key' value = fm_put c m key value"
proof -
  from put_resize_step[OF ok n] obtain m1 where
    m1: "(if fm_load_check m then fm_resize m (sz (bucket_count m * 2)) else Some m) = Some m1"
      "fm_ok c m1" "key_size m1 = key_size m" by blast
  have st: "stride (keys m1) = key_size m" using m1(2,3) by (simp add: fm_ok_def)
  have h: "fm_hash c key' (key_size m) = fm_hash c key (key_size m)"
    using fm_hash_take[of c "key_size m" key'] fm_hash_take[of c "key_size m" key] eq by simp
  have pr: "fm_put_probe m1 key' (hash_and_mask (fm_hash c key (key_size m)) (bucket_mask m1)) 0
          = fm_put_probe m1 key (hash_and_mask (fm_hash c key (key_size m)) (bucket_mask m1)) 0"
    using put_probe_result[OF m1(2), of key] put_probe_result[OF m1(2), of key'] len eq h m1(3)
    by simp
  have teq: "take (stride (keys m1)) key' = take (stride (keys m1)) key" using st eq by simp
  show ?thesis
    unfolding fm_put_def m1(1) option.case Let_def m1(3) h teq pr using len by simp
qed

lemma fm_erase_at:
  assumes ok: "fm_ok c m" and key: "key_size m \<le> length key"
    and p: "p < length (data (keys m))" "take (key_size m) key = data (keys m) ! p"
    and bs: "bs < bucket_count m" "buckets m ! bs = p"
  shows "fm_erase c m key = fm_erase_found m bs p"
proof -
  let ?bc = "bucket_count m"
  have h: "fm_hash c key (key_size m) = data (hashes m) ! p" using fm_ok_key_hash[OF ok p] .
  have i: "ideal ?bc (data (hashes m) ! p) < ?bc" using fm_ok_bc[OF ok] by (simp add: ideal_lt)
  have "fm_erase_loop m key ((ideal ?bc (data (hashes m) ! p) + 0) mod ?bc) 0 = fm_erase_found m bs p"
    by (rule erase_loop_found[OF ok p(1) bs p(2)]) simp
  then show ?thesis
    using i key by (simp add: fm_erase_def h shape_hash_and_mask[OF fm_ok_shape[OF ok]])
qed

lemma fm_erase_cong:
  assumes ok: "fm_ok c m"
    and eq: "take (key_size m) key' = take (key_size m) key"
    and len: "key_size m \<le> length key" "key_size m \<le> length key'"
  shows "fm_erase c m key' = fm_erase c m key"
proof (cases "take (key_size m) key" "data (keys m)" rule: key_present_cases)
  case (present p)
  from fm_ok_slot_of[OF ok present(1)] obtain bs where
    bs: "bs < bucket_count m" "buckets m ! bs = p" by blast
  have p': "take (key_size m) key' = data (keys m) ! p" using present(2) eq by simp
  show ?thesis
    using fm_erase_at[OF ok len(1) present bs] fm_erase_at[OF ok len(2) present(1) p' bs] by simp
next
  case absent
  then have "take (key_size m) key' \<notin> set (data (keys m))" using eq by simp
  then show ?thesis
    using fm_erase_absent[OF ok len(1) absent] fm_erase_absent[OF ok len(2)] by simp
qed

lemma fm_erase_total:
  assumes ok: "fm_ok c m" and key: "key_size m \<le> length key"
  shows "\<exists>m'. fm_erase c m key = Some (take (key_size m) key \<in> set (data (keys m)), m')"
proof (cases "take (key_size m) key" "data (keys m)" rule: key_present_cases)
  case (present p)
  then have "take (key_size m) key \<in> set (data (keys m))" by simp
  then show ?thesis using fm_erase_present[OF ok key present] by auto
next
  case absent
  then show ?thesis using fm_erase_absent[OF ok key absent] by simp
qed

lemma fm_put_keys:
  assumes ok: "fm_ok c m" and n: "vec_length (keys m) < 2 ^ 31"
    and kv: "key_size m \<le> length key" "val_size m \<le> length value"
  shows "\<exists>m'. fm_put c m key value = Some m' \<and> fm_ok c m' \<and> key_size m' = key_size m
           \<and> data (keys m') =
               (if take (key_size m) key \<in> set (data (keys m)) then data (keys m)
                else data (keys m) @ [take (key_size m) key])
           \<and> data (hashes m') =
               (if take (key_size m) key \<in> set (data (keys m)) then data (hashes m)
                else data (hashes m) @ [fm_hash c key (key_size m)])"
proof (cases "take (key_size m) key" "data (keys m)" rule: key_present_cases)
  case (present p)
  then have "take (key_size m) key \<in> set (data (keys m))" by simp
  moreover from fm_put_present[OF ok n kv present] obtain m1 where
    m1: "fm_ok c m1" "keys m1 = keys m" "hashes m1 = hashes m"
      "fm_put c m key value =
         Some (m1\<lparr>values_v := (values_v m)\<lparr>data :=
                    (data (values_v m))[p := take (val_size m) value]\<rparr>\<rparr>)"
      "fm_ok c (m1\<lparr>values_v := (values_v m)\<lparr>data :=
                    (data (values_v m))[p := take (val_size m) value]\<rparr>\<rparr>)"
      "(if fm_load_check m then fm_resize m (sz (bucket_count m * 2)) else Some m) = Some m1"
    by blast
  have "key_size m1 = key_size m" using m1(6) by (auto simp: fm_resize_def Let_def split: if_splits option.splits)
  ultimately show ?thesis using m1 by simp
next
  case absent
  then show ?thesis using fm_put_absent[OF ok n kv absent] by auto
qed

(*LEMMAS-END*)

section \<open>The claims of the specification\<close>

text \<open>
  Claim C9. The floating-point hash helpers replace negative zero by positive zero before
  hashing: \<^verbatim>\<open>float\<close> values that compare equal under \<^verbatim>\<open>==\<close> have equal hashes, and so do
  \<^verbatim>\<open>double\<close> values; in particular \<open>-0.0\<close> (sign bit alone) and \<open>0.0\<close> hash alike.
\<close>

theorem fm_hash_float_equal_values:
  "(float_eq x y \<longrightarrow> fm_hash_float int128 x = fm_hash_float int128 y) \<and>
   (double_eq u v \<longrightarrow> fm_hash_double int128 u = fm_hash_double int128 v) \<and>
   fm_hash_float int128 0x80000000 = fm_hash_float int128 0 \<and>
   fm_hash_double int128 0x8000000000000000 = fm_hash_double int128 0"
  by (auto simp: float_eq_def double_eq_def fm_hash_float_def fm_hash_double_def
      float_is_zero_def double_is_zero_def)

theorem fm_hash_float_equal_values_witness:
  "float_eq 0x80000000 0 \<and> fm_hash_float True 0x80000000 = fm_hash_float True 0 \<and>
   double_eq 0x8000000000000000 0 \<and>
   fm_hash_double True 0x8000000000000000 = fm_hash_double True 0 \<and>
   (0x80000000 :: 32 word) \<noteq> 0"
  using fm_hash_float_equal_values[of "0x80000000" 0 True "0x8000000000000000" 0]
  by (simp add: float_eq_def double_eq_def float_is_zero_def double_is_zero_def
      float_is_nan_def double_is_nan_def)

text \<open>
  Claim C5. After every sequence of \<^verbatim>\<open>fm_put\<close>, \<^verbatim>\<open>fm_erase\<close> and \<^verbatim>\<open>fm_resize\<close> calls starting from
  \<^verbatim>\<open>fm_init\<close> (puts below \<open>2 ^ 31\<close> entries, resizes doubling up to \<open>2 ^ 32\<close> buckets), reading
  the non-EMPTY bucket slots is a bijection onto the dense positions \<open>0, \<dots>, length - 1\<close>:
  every live position is referenced, and none by two slots.
\<close>

theorem bucket_index_bijection:
  assumes "fm_reach int128 m"
  shows "bij_betw (\<lambda>b. buckets m ! b)
           {b. b < length (buckets m) \<and> buckets m ! b \<noteq> FM_EMPTY_IDX}
           {0..<vec_length (keys m)}"
proof -
  have "fm_ok int128 m" using fm_reach_ok[OF assms] by simp
  then have "slots (buckets m) = mset [0..<vec_length (keys m)]" by (simp add: fm_ok_def)
  then show ?thesis by (rule slots_bij)
qed

theorem bucket_index_bijection_witness:
  "fm_reach True example_map \<and>
   bij_betw (\<lambda>b. buckets example_map ! b)
     {b. b < length (buckets example_map) \<and> buckets example_map ! b \<noteq> FM_EMPTY_IDX}
     {0..<vec_length (keys example_map)} \<and>
   buckets example_map ! 6 = 0 \<and> vec_length (keys example_map) = 1"
  using bucket_index_bijection[OF example_map_reach] example_map_reach
  by (simp add: example_map_def vec_length_def)

text \<open>
  Claim C6. On a map built by the operations, \<^verbatim>\<open>fm_erase\<close> with a key that is not stored (no
  stored key has its first \<open>key_size\<close> bytes) returns false and returns the map as it was:
  dense vectors, bucket array, lengths and capacities.
\<close>

theorem fm_erase_absent_key:
  assumes "fm_reach int128 m" and "key_size m \<le> length key"
    and "take (key_size m) key \<notin> set (data (keys m))"
  shows "fm_erase int128 m key = Some (False, m)"
  using fm_erase_absent[OF _ assms(2,3)] fm_reach_ok[OF assms(1)] by simp

theorem fm_erase_absent_key_witness:
  "fm_reach True example_map \<and> key_size example_map \<le> length [44 :: byte, 2, 0, 0] \<and>
   take (key_size example_map) [44, 2, 0, 0] \<notin> set (data (keys example_map)) \<and>
   fm_erase True example_map [44, 2, 0, 0] = Some (False, example_map)"
proof -
  have 1: "key_size example_map \<le> length [44 :: byte, 2, 0, 0]"
    by (simp add: example_map_def)
  have 2: "take (key_size example_map) [44, 2, 0, 0] \<notin> set (data (keys example_map))"
    by (simp add: example_map_def)
  show ?thesis using fm_erase_absent_key[OF example_map_reach 1 2] example_map_reach 1 2 by simp
qed

text \<open>
  Claim C10. Every map built by \<^verbatim>\<open>fm_init\<close>, \<^verbatim>\<open>fm_put\<close> and \<^verbatim>\<open>fm_erase\<close> (and the resize inside
  put) has its three dense vectors in lockstep, \<open>keys.length = values.length = hashes.length\<close>,
  and at every dense position below that length the cached digest is \<^verbatim>\<open>fm_hash\<close> of the key
  stored there, over \<open>key_size\<close> bytes.
\<close>

theorem dense_vectors_lockstep:
  assumes "fm_reach int128 m"
  shows "vec_length (keys m) = vec_length (values_v m) \<and>
         vec_length (values_v m) = vec_length (hashes m) \<and>
         (\<forall>i<vec_length (keys m).
            data (hashes m) ! i = fm_hash int128 (data (keys m) ! i) (key_size m))"
proof -
  have "dense_ok int128 m" using fm_reach_ok[OF assms] by (simp add: fm_ok_def)
  then show ?thesis by (simp add: dense_ok_def)
qed

theorem dense_vectors_lockstep_witness:
  "fm_reach True example_map \<and>
   vec_length (keys example_map) = 1 \<and> vec_length (values_v example_map) = 1 \<and>
   vec_length (hashes example_map) = 1 \<and>
   data (hashes example_map) ! 0 = fm_hash True [10, 0, 0, 0] 4"
  using dense_vectors_lockstep[OF example_map_reach] example_map_reach
  by (simp add: example_map_def vec_length_def)

text \<open>
  Claim C1. For every sequence of \<^verbatim>\<open>fm_put\<close> calls on a map built by the operations (fewer than
  \<open>2 ^ 31\<close> entries in all, each key and value buffer holding \<open>key_size\<close> and \<open>val_size\<close>
  bytes), \<^verbatim>\<open>fm_get\<close> with the key of the call just made returns a non-NULL pointer, and the
  bytes it points to are the \<open>val_size\<close> value bytes passed to that call. Distinct keys are
  not needed for this.
\<close>

theorem put_get_round_trip:
  assumes "fm_reach int128 m"
    and "vec_length (keys m) + length kvs < 2 ^ 31"
    and "\<forall>(key, value)\<in>set kvs. key_size m \<le> length key \<and> val_size m \<le> length value"
    and "j < length kvs"
  shows "\<exists>m' idx. fm_put_all int128 m (take (Suc j) kvs) = Some m'
           \<and> fm_get int128 m' (fst (kvs ! j)) = Some (Some idx)
           \<and> value_at m' idx = Some (take (val_size m) (snd (kvs ! j)))"
proof -
  have "set (take j kvs) \<subseteq> set kvs" by (rule set_take_subset)
  then have sz: "\<forall>(key, value)\<in>set (take j kvs). key_size m \<le> length key \<and> val_size m \<le> length value"
    using assms(3) by blast
  have "vec_length (keys m) + length (take j kvs) < 2 ^ 31" using assms(2,4) by simp
  from fm_put_all_reach[OF assms(1) this sz] obtain mj where
    mj: "fm_put_all int128 m (take j kvs) = Some mj" "fm_reach int128 mj"
      "key_size mj = key_size m" "val_size mj = val_size m"
      "vec_length (keys mj) \<le> vec_length (keys m) + length (take j kvs)" by blast
  have n: "vec_length (keys mj) < 2 ^ 31" using mj(5) assms(2,4) by simp
  have "kvs ! j \<in> set kvs" using assms(4) by simp
  then have kv: "key_size mj \<le> length (fst (kvs ! j))" "val_size mj \<le> length (snd (kvs ! j))"
    using assms(3) mj(3,4) by (auto simp: case_prod_beta)
  have ok: "fm_ok int128 mj" using fm_reach_ok[OF mj(2)] by simp
  from put_then_get[OF ok n kv] obtain m' idx where
    m': "fm_put int128 mj (fst (kvs ! j)) (snd (kvs ! j)) = Some m'"
      "fm_get int128 m' (fst (kvs ! j)) = Some (Some idx)"
      "value_at m' idx = Some (take (val_size mj) (snd (kvs ! j)))" by blast
  have t: "take (Suc j) kvs = take j kvs @ [kvs ! j]"
    using assms(4) by (simp add: take_Suc_conv_app_nth)
  obtain k v where e: "kvs ! j = (k, v)" by (cases "kvs ! j")
  have "fm_put_all int128 mj [kvs ! j] = Some m'" using m'(1) unfolding e by simp
  then have "fm_put_all int128 m (take (Suc j) kvs) = Some m'"
    using mj(1) unfolding t by (simp add: fm_put_all_append)
  then show ?thesis using m'(2,3) mj(4) by auto
qed

theorem put_get_round_trip_witness:
  "fm_reach True (fm_init 4 4) \<and>
   (\<exists>m' idx. fm_put_all True (fm_init 4 4) [([10, 0, 0, 0], [100, 0, 0, 0]), ([20, 0, 0, 0], [200, 0, 0, 0])]
                = Some m'
      \<and> fm_get True m' [20, 0, 0, 0] = Some (Some idx)
      \<and> value_at m' idx = Some [200, 0, 0, 0])"
proof -
  let ?kvs = "[([10, 0, 0, 0], [100, 0, 0, 0]), ([20, 0, 0, 0], [200, 0, 0, 0])] :: (byte list \<times> byte list) list"
  have 1: "fm_reach True (fm_init 4 4)" by (rule reach_init)
  have 2: "vec_length (keys (fm_init 4 4)) + length ?kvs < 2 ^ 31"
    by (simp add: fm_init_def fm_vec_init_def vec_length_def)
  have 3: "\<forall>(key, value)\<in>set ?kvs. key_size (fm_init 4 4) \<le> length key \<and> val_size (fm_init 4 4) \<le> length value"
    by (simp add: fm_init_def)
  have 4: "1 < length ?kvs" by simp
  have "val_size (fm_init 4 4) = 4" by (simp add: fm_init_def)
  then show ?thesis using put_get_round_trip[OF 1 2 3 4] 1 by simp
qed

text \<open>
  Claim C2. On a map built by the operations, \<^verbatim>\<open>fm_erase\<close> with a stored key returns true and
  shortens the three dense vectors by exactly one; every other key that \<^verbatim>\<open>fm_get\<close> found
  before is still found, with the same value bytes, and the erased key is no longer found.
  The repaired bucket array again references every dense position exactly once, holds
  nothing but EMPTY marks and live positions (no tombstone), and is in Robin Hood order, so
  the map is again one on which every lookup is answered by the dense position of the key.
\<close>

theorem fm_erase_present_key:
  assumes "fm_reach int128 m" and "key_size m \<le> length key"
    and "take (key_size m) key \<in> set (data (keys m))"
  shows "\<exists>m'. fm_erase int128 m key = Some (True, m')
           \<and> vec_length (keys m') + 1 = vec_length (keys m)
           \<and> vec_length (values_v m') + 1 = vec_length (values_v m)
           \<and> vec_length (hashes m') + 1 = vec_length (hashes m)
           \<and> (\<forall>k idx. key_size m \<le> length k \<and> take (key_size m) k \<noteq> take (key_size m) key
                  \<and> fm_get int128 m k = Some (Some idx)
                \<longrightarrow> (\<exists>idx'. fm_get int128 m' k = Some (Some idx')
                       \<and> value_at m' idx' = value_at m idx \<and> value_at m idx \<noteq> None))
           \<and> fm_get int128 m' key = Some None
           \<and> bij_betw (\<lambda>b. buckets m' ! b)
                {b. b < length (buckets m') \<and> buckets m' ! b \<noteq> FM_EMPTY_IDX}
                {0..<vec_length (keys m')}
           \<and> (\<forall>b<length (buckets m').
                  buckets m' ! b = FM_EMPTY_IDX \<or> buckets m' ! b < vec_length (keys m'))
           \<and> rh_ok_d (bucket_count m') (dists (bucket_count m') (data (hashes m')) (buckets m'))
           \<and> (\<forall>k. key_size m' \<le> length k \<longrightarrow>
                  fm_get int128 m' k = Some (key_index (data (keys m')) (take (key_size m') k)))
           \<and> fm_reach int128 m'"
proof -
  let ?K = "data (keys m)" and ?V = "data (values_v m)" and ?ks = "key_size m"
  let ?n = "length ?K"
  have ok: "fm_ok int128 m" using fm_reach_ok[OF assms(1)] by simp
  from assms(3) obtain p where p: "p < ?n" "take ?ks key = ?K ! p"
    by (metis in_set_conv_nth)
  from fm_erase_present[OF ok assms(2) p] obtain T' where
    er: "fm_erase int128 m key = Some (True, erased m p T')" and ok': "fm_ok int128 (erased m p T')"
    by blast
  let ?m' = "erased m p T'"
  have lens: "length (data (hashes m)) = ?n" "length ?V = ?n" using fm_ok_lengths[OF ok] by simp_all
  have npos: "0 < ?n" using p(1) by (cases ?K) auto
  have len: "vec_length (keys ?m') + 1 = vec_length (keys m)"
    "vec_length (values_v ?m') + 1 = vec_length (values_v m)"
    "vec_length (hashes ?m') + 1 = vec_length (hashes m)"
    using npos lens by (simp_all add: vec_length_def)
  have di: "distinct ?K" using fm_ok_distinct[OF ok] .
  have others: "\<forall>k idx. ?ks \<le> length k \<and> take ?ks k \<noteq> take ?ks key
                  \<and> fm_get int128 m k = Some (Some idx)
                \<longrightarrow> (\<exists>idx'. fm_get int128 ?m' k = Some (Some idx')
                       \<and> value_at ?m' idx' = value_at m idx \<and> value_at m idx \<noteq> None)"
  proof (intro allI impI, elim conjE)
    fix k idx
    assume k: "?ks \<le> length k" "take ?ks k \<noteq> take ?ks key" "fm_get int128 m k = Some (Some idx)"
    have "key_index ?K (take ?ks k) = Some idx" using fm_get_correct[OF ok k(1)] k(3) by simp
    from key_index_Some[OF this] have idx: "idx < ?n" "?K ! idx = take ?ks k" by simp_all
    have ne: "idx \<noteq> p" using idx(2) p(2) k(2) by auto
    define q where "q = (if idx = ?n - 1 then p else idx)"
    have q: "q < ?n - 1" using idx(1) p(1) ne by (auto simp: q_def)
    have Kq: "swap_remove p ?K ! q = ?K ! idx"
      using nth_swap_remove[OF q, of p] ne by (auto simp: q_def)
    have Vq: "swap_remove p ?V ! q = ?V ! idx"
      using nth_swap_remove[of q ?V p] q lens ne by (auto simp: q_def)
    have "fm_get int128 ?m' k = Some (Some q)"
      by (rule fm_get_present[OF ok']) (use k(1) q Kq idx(2) in simp_all)
    moreover have "value_at ?m' q = value_at m idx" "value_at m idx \<noteq> None"
      using q Vq idx(1) lens by (simp_all add: value_at_def fm_vec_at_def vec_length_def)
    ultimately show "\<exists>idx'. fm_get int128 ?m' k = Some (Some idx')
                       \<and> value_at ?m' idx' = value_at m idx \<and> value_at m idx \<noteq> None" by blast
  qed
  have "take ?ks key \<notin> set (swap_remove p ?K)"
    using set_swap_remove[OF di p(1)] p(2) by simp
  then have gone: "fm_get int128 ?m' key = Some None"
    using fm_get_absent[OF ok', of key] assms(2) by simp
  have sl: "slots (buckets ?m') = mset [0..<vec_length (keys ?m')]" using ok' by (simp add: fm_ok_def)
  have bij: "bij_betw (\<lambda>b. buckets ?m' ! b)
                {b. b < length (buckets ?m') \<and> buckets ?m' ! b \<noteq> FM_EMPTY_IDX}
                {0..<vec_length (keys ?m')}"
    using slots_bij[OF sl] .
  have live: "\<forall>b<length (buckets ?m').
                  buckets ?m' ! b = FM_EMPTY_IDX \<or> buckets ?m' ! b < vec_length (keys ?m')"
    using fm_ok_slot[OF ok'] fm_ok_len[OF ok'] by (auto simp: vec_length_def)
  have rh: "rh_ok_d (bucket_count ?m') (dists (bucket_count ?m') (data (hashes ?m')) (buckets ?m'))"
    using fm_ok_rh[OF ok'] .
  have look: "\<forall>k. key_size ?m' \<le> length k \<longrightarrow>
                  fm_get int128 ?m' k = Some (key_index (data (keys ?m')) (take (key_size ?m') k))"
    using fm_get_correct[OF ok'] by blast
  have reach: "fm_reach int128 ?m'" using reach_erase[OF assms(1) er] .
  show ?thesis
    using er len others gone bij live rh look reach by (intro exI[of _ ?m']) blast
qed

theorem fm_erase_present_key_witness:
  "fm_reach True example_map2 \<and> key_size example_map2 \<le> length [10 :: byte, 0, 0, 0] \<and>
   take (key_size example_map2) [10, 0, 0, 0] \<in> set (data (keys example_map2)) \<and>
   (\<exists>m'. fm_erase True example_map2 [10, 0, 0, 0] = Some (True, m')
      \<and> vec_length (keys m') = 1
      \<and> (\<exists>idx'. fm_get True m' [20, 0, 0, 0] = Some (Some idx')
             \<and> value_at m' idx' = Some [200, 0, 0, 0])
      \<and> fm_get True m' [10, 0, 0, 0] = Some None)"
proof -
  have 1: "key_size example_map2 \<le> length [10 :: byte, 0, 0, 0]"
    by (simp add: example_map2_def)
  have 2: "take (key_size example_map2) [10, 0, 0, 0] \<in> set (data (keys example_map2))"
    by (simp add: example_map2_def)
  from fm_erase_present_key[OF example_map2_reach 1 2] obtain m' where
    m': "fm_erase True example_map2 [10, 0, 0, 0] = Some (True, m')"
      "vec_length (keys m') + 1 = vec_length (keys example_map2)"
      "\<forall>k idx. key_size example_map2 \<le> length k
           \<and> take (key_size example_map2) k \<noteq> take (key_size example_map2) [10, 0, 0, 0]
           \<and> fm_get True example_map2 k = Some (Some idx)
         \<longrightarrow> (\<exists>idx'. fm_get True m' k = Some (Some idx')
                \<and> value_at m' idx' = value_at example_map2 idx \<and> value_at example_map2 idx \<noteq> None)"
      "fm_get True m' [10, 0, 0, 0] = Some None"
    by blast
  have "key_size example_map2 \<le> length [20 :: byte, 0, 0, 0]
           \<and> take (key_size example_map2) [20 :: byte, 0, 0, 0]
                 \<noteq> take (key_size example_map2) [10 :: byte, 0, 0, 0]
           \<and> fm_get True example_map2 [20, 0, 0, 0] = Some (Some 1)"
    using example_map2_get by (simp add: example_map2_def)
  with m'(3) obtain idx' where
    "fm_get True m' [20, 0, 0, 0] = Some (Some idx')" "value_at m' idx' = value_at example_map2 1"
    by blast
  moreover have "value_at example_map2 1 = Some [200, 0, 0, 0]"
    by (simp add: example_map2_def value_at_def fm_vec_at_def vec_length_def)
  moreover have "vec_length (keys m') = 1"
    using m'(2) by (simp add: example_map2_def vec_length_def)
  ultimately show ?thesis using example_map2_reach 1 2 m'(1,4) by auto
qed

text \<open>
  Claim C3, as the specification states it, fails. \<^verbatim>\<open>fm_put\<close> checks the load factor and
  rebuilds the bucket index before it probes, so a put with a stored key grows the index
  when the map is at its threshold: after thirteen puts into a fresh map (sixteen buckets),
  a put with the stored key \<open>3\<close> leaves thirty-two buckets and another bucket array.
\<close>

theorem fm_put_existing_key_grows:
  "fm_put_all True (fm_init 4 4) thirteen_puts = Some full_map \<and>
   key_index (data (keys full_map)) [3, 0, 0, 0] = Some 3 \<and>
   fm_put True full_map [3, 0, 0, 0] [7, 0, 0, 0] = Some full_map_updated \<and>
   bucket_count full_map = 16 \<and> bucket_count full_map_updated = 32 \<and>
   buckets full_map_updated \<noteq> buckets full_map \<and>
   keys full_map_updated = keys full_map"
  using full_map_puts full_map_put_again by (simp add: full_map_def full_map_updated_def)

text \<open>
  Claim C3, amended. On a map built by the operations (below \<open>2 ^ 31\<close> entries), \<^verbatim>\<open>fm_put\<close>
  with a key stored at dense position \<open>p\<close> returns, and overwrites only the value at \<open>p\<close>:
  the key and digest vectors are unchanged, so the length and the key's dense position
  are. When the load check \<open>length \<ge> bucket_count \<times> max_load_factor\<close> does not fire, nothing
  else changes: no growth, no change of the bucket index. When it fires, the bucket index
  is first rebuilt by \<^verbatim>\<open>fm_resize\<close> at twice the bucket count.
\<close>

theorem fm_put_existing_key:
  assumes "fm_reach int128 m" and "vec_length (keys m) < 2 ^ 31"
    and "key_size m \<le> length key" and "val_size m \<le> length value"
    and "p < vec_length (keys m)" and "data (keys m) ! p = take (key_size m) key"
  shows "\<exists>m1. (if fm_load_check m then fm_resize m (2 * bucket_count m) else Some m) = Some m1
           \<and> fm_put int128 m key value =
               Some (m1\<lparr>values_v := (values_v m)\<lparr>data :=
                          (data (values_v m))[p := take (val_size m) value]\<rparr>\<rparr>)
           \<and> keys m1 = keys m \<and> values_v m1 = values_v m \<and> hashes m1 = hashes m
           \<and> bucket_count m1 = (if fm_load_check m then 2 * bucket_count m else bucket_count m)"
proof -
  have ok: "fm_ok int128 m" using fm_reach_ok[OF assms(1)] by simp
  have p: "p < length (data (keys m))" "take (key_size m) key = data (keys m) ! p"
    using assms(5,6) by (simp_all add: vec_length_def)
  have "bucket_count m * 2 < 2 ^ 64" using fm_ok_bc[OF ok] by simp
  then have "sz (bucket_count m * 2) = 2 * bucket_count m" by (simp add: sz_id mult.commute)
  then show ?thesis using fm_put_present[OF ok assms(2,3,4) p] by auto
qed

theorem fm_put_existing_key_witness:
  "fm_reach True full_map \<and> fm_load_check full_map \<and>
   fm_reach True example_map2 \<and> \<not> fm_load_check example_map2 \<and>
   fm_resize full_map 32 =
     Some (full_map\<lparr>buckets := buckets full_map_updated, bucket_count := 32, bucket_mask := 31\<rparr>) \<and>
   fm_put True full_map [3, 0, 0, 0] [7, 0, 0, 0] = Some full_map_updated \<and>
   fm_put True example_map2 [20, 0, 0, 0] [7, 0, 0, 0] =
     Some (example_map2\<lparr>values_v := (values_v example_map2)\<lparr>data :=
                           [[100, 0, 0, 0], [7, 0, 0, 0]]\<rparr>\<rparr>)"
proof -
  have a: "vec_length (keys full_map) < 2 ^ 31" "key_size full_map \<le> length [3 :: byte, 0, 0, 0]"
    "val_size full_map \<le> length [7 :: byte, 0, 0, 0]" "3 < vec_length (keys full_map)"
    "data (keys full_map) ! 3 = take (key_size full_map) [3, 0, 0, 0]"
    by (simp_all add: full_map_def vec_length_def)
  have b: "vec_length (keys example_map2) < 2 ^ 31"
    "key_size example_map2 \<le> length [20 :: byte, 0, 0, 0]"
    "val_size example_map2 \<le> length [7 :: byte, 0, 0, 0]" "1 < vec_length (keys example_map2)"
    "data (keys example_map2) ! 1 = take (key_size example_map2) [20, 0, 0, 0]"
    by (simp_all add: example_map2_def vec_length_def)
  have c: "fm_load_check full_map" by (rule full_map_load_check)
  have d: "\<not> fm_load_check example_map2" by (simp add: fm_eval_ops example_map2_def)
  from fm_put_existing_key[OF full_map_reach a] c full_map_put_again obtain m1 where
    m1: "fm_resize full_map (2 * bucket_count full_map) = Some m1"
      "full_map_updated = m1\<lparr>values_v := (values_v full_map)\<lparr>data :=
          (data (values_v full_map))[3 := take (val_size full_map) [7, 0, 0, 0]]\<rparr>\<rparr>"
      "values_v m1 = values_v full_map"
    by auto
  have "m1 = full_map_updated\<lparr>values_v := values_v full_map\<rparr>"
    unfolding m1(2) using m1(3) by simp
  then have 1: "fm_resize full_map 32 =
     Some (full_map\<lparr>buckets := buckets full_map_updated, bucket_count := 32, bucket_mask := 31\<rparr>)"
    using m1(1) by (simp add: full_map_def full_map_updated_def)
  from fm_put_existing_key[OF example_map2_reach b] d
  have 2: "fm_put True example_map2 [20, 0, 0, 0] [7, 0, 0, 0] =
     Some (example_map2\<lparr>values_v := (values_v example_map2)\<lparr>data :=
                           [[100, 0, 0, 0], [7, 0, 0, 0]]\<rparr>\<rparr>)"
    by (simp add: example_map2_def)
  show ?thesis using 1 2 c d full_map_reach example_map2_reach full_map_put_again by simp
qed

text \<open>
  Claim C4, as the specification states it, fails. The load check comes before the
  insertion and compares the length before it: the thirteenth put into a fresh map finds
  twelve entries in sixteen buckets, \<open>12 < 16 \<times> 0.80\<close>, does not grow, and leaves thirteen
  entries in sixteen buckets, \<open>13 > 12.8\<close>.
\<close>

theorem load_factor_exceeded:
  "fm_put_all True (fm_init 4 4) thirteen_puts = Some full_map \<and>
   vec_length (keys full_map) = 13 \<and> bucket_count full_map = 16 \<and>
   max_load_factor full_map = float_0_80 \<and>
   \<not> binary32_le (binary32_of_size (vec_length (keys full_map)))
        (binary32_mult (binary32_of_size (bucket_count full_map)) (max_load_factor full_map)) \<and>
   \<not> 5 * vec_length (keys full_map) \<le> 4 * bucket_count full_map"
  using full_map_puts by (simp add: fm_eval_ops full_map_def)

text \<open>
  Claim C4, amended. After every \<^verbatim>\<open>fm_put\<close> call on a map built by the operations (below
  \<open>2 ^ 31\<close> entries), \<open>length - 1 < bucket_count \<times> 0.80\<close> holds, where \<open>length\<close> is \<open>keys.length\<close>
  and \<open>0.80\<close> is the map's \<open>max_load_factor\<close>, the binary32 number \<open>13421773 / 2 ^ 24\<close>: the
  bound can be exceeded by the entry just inserted, and by no more.
\<close>

theorem load_factor_after_put:
  assumes "fm_reach int128 m" and "vec_length (keys m) < 2 ^ 31"
    and "key_size m \<le> length key" and "val_size m \<le> length value"
  shows "\<exists>m'. fm_put int128 m key value = Some m'
           \<and> max_load_factor m' = Binary32 13421773 (- 24)
           \<and> 0 < vec_length (keys m')
           \<and> (vec_length (keys m') - 1) * 2 ^ 24 < 13421773 * bucket_count m'"
proof -
  have ok: "fm_ok int128 m" "load_ok m" using fm_reach_ok[OF assms(1)] by simp_all
  from fm_put_total[OF ok(1) assms(2,3,4)] obtain m' idx where
    m': "fm_put int128 m key value = Some m'" "idx < length (data (keys m'))" by blast
  from fm_put_reach[OF ok assms(2) m'(1)] have ok': "fm_ok int128 m'" "load_ok m'" by simp_all
  have pos: "0 < vec_length (keys m')" using m'(2) by (auto simp: vec_length_def)
  have "max_load_factor m' = Binary32 13421773 (- 24)"
    using fm_ok_mlf[OF ok'(1)] by (simp add: float_0_80_def)
  moreover have "(vec_length (keys m') - 1) * 2 ^ 24 < 13421773 * bucket_count m'"
    using ok'(2) pos by (simp add: load_ok_def algebra_simps)
  ultimately show ?thesis using m'(1) pos by blast
qed

theorem load_factor_after_put_witness:
  "fm_reach True full_map \<and> vec_length (keys full_map) < 2 ^ 31 \<and>
   key_size full_map \<le> length [3 :: byte, 0, 0, 0] \<and>
   val_size full_map \<le> length [7 :: byte, 0, 0, 0] \<and>
   fm_put True full_map [3, 0, 0, 0] [7, 0, 0, 0] = Some full_map_updated \<and>
   (vec_length (keys full_map_updated) - 1) * 2 ^ 24 < 13421773 * bucket_count full_map_updated \<and>
   vec_length (keys full_map_updated) = 13 \<and> bucket_count full_map_updated = 32"
proof -
  have a: "vec_length (keys full_map) < 2 ^ 31" "key_size full_map \<le> length [3 :: byte, 0, 0, 0]"
    "val_size full_map \<le> length [7 :: byte, 0, 0, 0]"
    by (simp_all add: full_map_def vec_length_def)
  have "vec_length (keys full_map_updated) = 13 \<and> bucket_count full_map_updated = 32"
    by (simp add: full_map_def full_map_updated_def vec_length_def)
  then show ?thesis
    using load_factor_after_put[OF full_map_reach a] full_map_reach a full_map_put_again by simp
qed

text \<open>
  Claim C7. \<^verbatim>\<open>fm_resize\<close> is the rebuild of the bucket index from the cached digests:
  starting from \<open>new_capacity\<close> EMPTY slots it runs \<^verbatim>\<open>fm_place_index\<close> for the dense positions
  \<open>0, \<dots>, length - 1\<close> in that order, each with the digest read from the hash vector; the
  key bytes are no argument of \<open>rebuild_index\<close>, and \<^verbatim>\<open>fm_hash\<close> is not called. The result is
  the map with the new bucket array, count and mask, and the dense vectors as they were. On
  a map built by the operations, doubling the bucket count (up to \<open>2 ^ 32\<close>) returns.
\<close>

theorem fm_resize_rebuilds_index:
  "fm_resize m new_capacity =
     (case rebuild_index (hashes m) (vec_length (keys m)) new_capacity of
        None \<Rightarrow> None
      | Some T \<Rightarrow>
          Some (m\<lparr>buckets := T, bucket_count := new_capacity,
                  bucket_mask := sz_sub new_capacity 1\<rparr>)) \<and>
   (fm_resize m new_capacity = Some m' \<longrightarrow>
      keys m' = keys m \<and> values_v m' = values_v m \<and> hashes m' = hashes m \<and>
      key_size m' = key_size m \<and> val_size m' = val_size m \<and>
      max_load_factor m' = max_load_factor m) \<and>
   (fm_reach int128 m \<and> bucket_count m < 2 ^ 32 \<and> new_capacity = 2 * bucket_count m \<longrightarrow>
      (\<exists>T. rebuild_index (hashes m) (vec_length (keys m)) new_capacity = Some T \<and>
           fm_resize m new_capacity =
             Some (m\<lparr>buckets := T, bucket_count := new_capacity,
                     bucket_mask := new_capacity - 1\<rparr>)))"
proof (intro conjI impI)
  show eq: "fm_resize m new_capacity =
     (case rebuild_index (hashes m) (vec_length (keys m)) new_capacity of
        None \<Rightarrow> None
      | Some T \<Rightarrow>
          Some (m\<lparr>buckets := T, bucket_count := new_capacity,
                  bucket_mask := sz_sub new_capacity 1\<rparr>))"
    by (rule fm_resize_rebuild)
  {
    assume "fm_resize m new_capacity = Some m'"
    then obtain T where
      "m' = m\<lparr>buckets := T, bucket_count := new_capacity, bucket_mask := sz_sub new_capacity 1\<rparr>"
      unfolding eq by (auto split: option.splits)
    then show "keys m' = keys m" "values_v m' = values_v m" "hashes m' = hashes m"
      "key_size m' = key_size m" "val_size m' = val_size m"
      "max_load_factor m' = max_load_factor m"
      by simp_all
  }
  assume a: "fm_reach int128 m \<and> bucket_count m < 2 ^ 32 \<and> new_capacity = 2 * bucket_count m"
  have ok: "fm_ok int128 m" using fm_reach_ok a by blast
  from fm_ok_shape[OF ok] obtain k where k: "4 \<le> k" "k \<le> 32" "bucket_count m = 2 ^ k"
    by (auto simp: table_shape_def)
  have "(2::nat) ^ k < 2 ^ 32" using a k by simp
  then have "k < 32" by (rule power_less_imp_less_exp[rotated]) simp
  then have "4 \<le> Suc k \<and> Suc k \<le> 32 \<and> new_capacity = 2 ^ Suc k" using k a by simp
  then have sh: "table_shape new_capacity (new_capacity - 1)" unfolding table_shape_def by blast
  have len: "vec_length (hashes m) = vec_length (keys m)"
    using ok by (simp add: fm_ok_def dense_ok_def)
  have lt: "vec_length (keys m) < new_capacity"
    using fm_ok_lengths[OF ok] a by (simp add: vec_length_def)
  from fm_resize_ok[OF sh len lt] obtain T where
    T: "fm_resize m new_capacity =
          Some (m\<lparr>buckets := T, bucket_count := new_capacity, bucket_mask := new_capacity - 1\<rparr>)"
    by blast
  then have "rebuild_index (hashes m) (vec_length (keys m)) new_capacity = Some T"
    unfolding eq by (auto split: option.splits dest: arg_cong[where f = buckets])
  then show "\<exists>T. rebuild_index (hashes m) (vec_length (keys m)) new_capacity = Some T \<and>
           fm_resize m new_capacity =
             Some (m\<lparr>buckets := T, bucket_count := new_capacity,
                     bucket_mask := new_capacity - 1\<rparr>)"
    using T by blast
qed

theorem fm_resize_rebuilds_index_witness:
  "fm_reach True example_map2 \<and> bucket_count example_map2 < 2 ^ 32 \<and>
   32 = 2 * bucket_count example_map2 \<and>
   rebuild_index (hashes example_map2) (vec_length (keys example_map2)) 32 =
     Some [4294967295, 4294967295, 4294967295, 1, 4294967295, 4294967295, 0, 4294967295,
           4294967295, 4294967295, 4294967295, 4294967295, 4294967295, 4294967295,
           4294967295, 4294967295, 4294967295, 4294967295, 4294967295, 4294967295,
           4294967295, 4294967295, 4294967295, 4294967295, 4294967295, 4294967295,
           4294967295, 4294967295, 4294967295, 4294967295, 4294967295, 4294967295] \<and>
   fm_resize example_map2 32 =
     Some (example_map2
             \<lparr>buckets :=
                [4294967295, 4294967295, 4294967295, 1, 4294967295, 4294967295, 0, 4294967295,
                 4294967295, 4294967295, 4294967295, 4294967295, 4294967295, 4294967295,
                 4294967295, 4294967295, 4294967295, 4294967295, 4294967295, 4294967295,
                 4294967295, 4294967295, 4294967295, 4294967295, 4294967295, 4294967295,
                 4294967295, 4294967295, 4294967295, 4294967295, 4294967295, 4294967295],
              bucket_count := 32, bucket_mask := 31\<rparr>)"
proof -
  have a: "bucket_count example_map2 < 2 ^ 32" "32 = 2 * bucket_count example_map2"
    by (simp_all add: example_map2_def)
  have r: "rebuild_index (hashes example_map2) (vec_length (keys example_map2)) 32 =
     Some [4294967295, 4294967295, 4294967295, 1, 4294967295, 4294967295, 0, 4294967295,
           4294967295, 4294967295, 4294967295, 4294967295, 4294967295, 4294967295,
           4294967295, 4294967295, 4294967295, 4294967295, 4294967295, 4294967295,
           4294967295, 4294967295, 4294967295, 4294967295, 4294967295, 4294967295,
           4294967295, 4294967295, 4294967295, 4294967295, 4294967295, 4294967295]"
    by (simp add: rebuild_index_def fm_eval_ops example_map2_def upt_conv_Cons)
  show ?thesis
    using fm_resize_rebuilds_index[of example_map2 32
        "example_map2
           \<lparr>buckets :=
              [4294967295, 4294967295, 4294967295, 1, 4294967295, 4294967295, 0, 4294967295,
               4294967295, 4294967295, 4294967295, 4294967295, 4294967295, 4294967295,
               4294967295, 4294967295, 4294967295, 4294967295, 4294967295, 4294967295,
               4294967295, 4294967295, 4294967295, 4294967295, 4294967295, 4294967295,
               4294967295, 4294967295, 4294967295, 4294967295, 4294967295, 4294967295],
            bucket_count := 32, bucket_mask := 31\<rparr>" True]
      example_map2_reach a r
    by (simp add: sz_sub_def)
qed

(*CLAIMS-END*)

end
